theory Spec2Isabelle
  imports Complex_Main
begin

section \<open>Numbers of the source\<close>

text \<open>
  Every \<^verbatim>\<open>number\<close> of the TypeScript source is an IEEE double. The model idealises the
  finite doubles as the real numbers (no rounding, no overflow) and keeps the three
  values that the source can produce out of finite inputs as values of their own:
  \<^verbatim>\<open>Infinity\<close> (the out-of-grid sentinel of \<^verbatim>\<open>SDF.getGridValue\<close>), \<^verbatim>\<open>-Infinity\<close> and
  \<^verbatim>\<open>NaN\<close> (\<^verbatim>\<open>Infinity * 0\<close>, \<^verbatim>\<open>Infinity / Infinity\<close>, \<^verbatim>\<open>0 / 0\<close>). Signed zeros are not
  modelled: a nonzero finite number divided by zero takes the sign of the dividend.
  A read of \<^verbatim>\<open>undefined\<close> that is used in arithmetic is \<^verbatim>\<open>NaN\<close>.
\<close>

datatype jsnum = Fin real | PInf | NInf | NaN

fun js_neg :: "jsnum \<Rightarrow> jsnum" where
  "js_neg (Fin a) = Fin (- a)"
| "js_neg PInf = NInf"
| "js_neg NInf = PInf"
| "js_neg NaN = NaN"

fun js_add :: "jsnum \<Rightarrow> jsnum \<Rightarrow> jsnum" where
  "js_add (Fin a) (Fin b) = Fin (a + b)"
| "js_add NaN _ = NaN"
| "js_add _ NaN = NaN"
| "js_add PInf NInf = NaN"
| "js_add NInf PInf = NaN"
| "js_add PInf _ = PInf"
| "js_add _ PInf = PInf"
| "js_add NInf _ = NInf"
| "js_add _ NInf = NInf"

definition js_sub :: "jsnum \<Rightarrow> jsnum \<Rightarrow> jsnum" where
  "js_sub a b = js_add a (js_neg b)"

text \<open>The sign of a product with an infinite factor; zero times infinity is \<^verbatim>\<open>NaN\<close>.\<close>

definition js_signed_inf :: "real \<Rightarrow> jsnum" where
  "js_signed_inf s = (if s = 0 then NaN else if 0 < s then PInf else NInf)"

fun js_sign :: "jsnum \<Rightarrow> real" where
  "js_sign (Fin a) = sgn a"
| "js_sign PInf = 1"
| "js_sign NInf = - 1"
| "js_sign NaN = 0"

fun js_mul :: "jsnum \<Rightarrow> jsnum \<Rightarrow> jsnum" where
  "js_mul (Fin a) (Fin b) = Fin (a * b)"
| "js_mul NaN _ = NaN"
| "js_mul _ NaN = NaN"
| "js_mul a b = js_signed_inf (js_sign a * js_sign b)"

fun js_div :: "jsnum \<Rightarrow> jsnum \<Rightarrow> jsnum" where
  "js_div (Fin a) (Fin b) = (if b = 0 then js_signed_inf a else Fin (a / b))"
| "js_div NaN _ = NaN"
| "js_div _ NaN = NaN"
| "js_div (Fin a) _ = Fin 0"
| "js_div a (Fin b) = js_signed_inf (js_sign a * (if b < 0 then - 1 else 1))"
| "js_div _ _ = NaN"

text \<open>Comparisons: every comparison with \<^verbatim>\<open>NaN\<close> is false.\<close>

fun js_lt :: "jsnum \<Rightarrow> jsnum \<Rightarrow> bool" where
  "js_lt (Fin a) (Fin b) = (a < b)"
| "js_lt NaN _ = False"
| "js_lt _ NaN = False"
| "js_lt PInf _ = False"
| "js_lt _ NInf = False"
| "js_lt _ _ = True"

definition js_gt :: "jsnum \<Rightarrow> jsnum \<Rightarrow> bool" where
  "js_gt a b = js_lt b a"

fun js_le :: "jsnum \<Rightarrow> jsnum \<Rightarrow> bool" where
  "js_le (Fin a) (Fin b) = (a \<le> b)"
| "js_le NaN _ = False"
| "js_le _ NaN = False"
| "js_le NInf _ = True"
| "js_le _ PInf = True"
| "js_le _ _ = False"

definition js_ge :: "jsnum \<Rightarrow> jsnum \<Rightarrow> bool" where
  "js_ge a b = js_le b a"

text \<open>\<^verbatim>\<open>a !== b\<close> on numbers: \<^verbatim>\<open>NaN\<close> differs from everything, itself included.\<close>

definition js_neq :: "jsnum \<Rightarrow> jsnum \<Rightarrow> bool" where
  "js_neq a b = (a = NaN \<or> b = NaN \<or> a \<noteq> b)"

fun js_abs :: "jsnum \<Rightarrow> jsnum" where
  "js_abs (Fin a) = Fin \<bar>a\<bar>"
| "js_abs NaN = NaN"
| "js_abs _ = PInf"

fun js_sqrt :: "jsnum \<Rightarrow> jsnum" where
  "js_sqrt (Fin a) = (if a < 0 then NaN else Fin (sqrt a))"
| "js_sqrt PInf = PInf"
| "js_sqrt _ = NaN"

fun js_floor :: "jsnum \<Rightarrow> jsnum" where
  "js_floor (Fin a) = Fin (of_int \<lfloor>a\<rfloor>)"
| "js_floor a = a"

fun js_cos :: "jsnum \<Rightarrow> jsnum" where
  "js_cos (Fin a) = Fin (cos a)"
| "js_cos _ = NaN"

fun js_sin :: "jsnum \<Rightarrow> jsnum" where
  "js_sin (Fin a) = Fin (sin a)"
| "js_sin _ = NaN"

text \<open>\<^verbatim>\<open>Math.min\<close> and \<^verbatim>\<open>Math.max\<close> return \<^verbatim>\<open>NaN\<close> when an argument is \<^verbatim>\<open>NaN\<close>.\<close>

definition js_min :: "jsnum \<Rightarrow> jsnum \<Rightarrow> jsnum" where
  "js_min a b = (if a = NaN \<or> b = NaN then NaN else if js_lt b a then b else a)"

definition js_max :: "jsnum \<Rightarrow> jsnum \<Rightarrow> jsnum" where
  "js_max a b = (if a = NaN \<or> b = NaN then NaN else if js_lt a b then b else a)"

text \<open>
  The remainder \<^verbatim>\<open>a % b\<close> of two finite numbers, \<open>b\<close> not zero: the quotient is truncated
  towards zero, so the result has the sign of the dividend.
\<close>

definition js_trunc :: "real \<Rightarrow> int" where
  "js_trunc r = (if 0 \<le> r then \<lfloor>r\<rfloor> else \<lceil>r\<rceil>)"

definition js_rem :: "real \<Rightarrow> real \<Rightarrow> real" where
  "js_rem a b = a - b * of_int (js_trunc (a / b))"

section \<open>noise.ts: the permutation table\<close>

text \<open>
  A \<^verbatim>\<open>Uint8Array\<close> is a list of naturals below 256. Reading it at a key that is not an
  integer index inside the array gives \<^verbatim>\<open>undefined\<close> (here \<open>None\<close>); writing at such a key
  does nothing; storing \<^verbatim>\<open>undefined\<close> stores 0. Every value the source stores is an element
  of a \<^verbatim>\<open>Uint8Array\<close> or \<^verbatim>\<open>undefined\<close>, so no store wraps around.
\<close>

definition valid_index :: "'a list \<Rightarrow> real \<Rightarrow> bool" where
  "valid_index p j = (j = of_int \<lfloor>j\<rfloor> \<and> 0 \<le> j \<and> j < real (length p))"

definition u8_get :: "nat list \<Rightarrow> real \<Rightarrow> nat option" where
  "u8_get p j = (if valid_index p j then Some (p ! nat \<lfloor>j\<rfloor>) else None)"

definition u8_set :: "nat list \<Rightarrow> real \<Rightarrow> nat option \<Rightarrow> nat list" where
  "u8_set p j v =
     (if valid_index p j then p[nat \<lfloor>j\<rfloor> := (case v of None \<Rightarrow> 0 | Some b \<Rightarrow> b)]
      else p)"

text \<open>
  The shuffle loop of \<^verbatim>\<open>buildPermutationTable\<close>, \<^verbatim>\<open>for (let i = 255; i > 0; i--)\<close>: the first
  argument is \<open>i\<close>, the second the generator state \<open>n\<close>.
\<close>

fun shuffle :: "nat \<Rightarrow> real \<Rightarrow> nat list \<Rightarrow> nat list" where
  "shuffle 0 n p = p"
| "shuffle (Suc k) n p =
     (let i = Suc k;
          n' = js_rem (n * 16807) 2147483647;
          j = js_rem n' (real (i + 1));
          tmp = u8_get p (real i);
          p1 = u8_set p (real i) (u8_get p j);
          p2 = u8_set p1 j tmp
      in shuffle k n' p2)"

definition buildPermutationTable :: "real \<Rightarrow> nat list" where
  "buildPermutationTable seed =
     (let p = shuffle 255 seed [0..<256]
      in map (\<lambda>i. p ! (i mod 256)) [0..<512])"

record SimplexNoise =
  perm :: "nat list"
  permMod12 :: "nat list"

definition SimplexNoise_new :: "real \<Rightarrow> SimplexNoise" where
  "SimplexNoise_new seed =
     (let pm = buildPermutationTable seed
      in \<lparr> perm = pm, permMod12 = map (\<lambda>i. (pm ! i) mod 12) [0..<512] \<rparr>)"

section \<open>noise.ts: simplex noise\<close>

definition F2 :: real where
  "F2 = 0.5 * (sqrt 3 - 1)"

definition G2 :: real where
  "G2 = (3 - sqrt 3) / 6"

definition grad3 :: "real list list" where
  "grad3 =
     [[1, 1, 0], [- 1, 1, 0], [1, - 1, 0], [- 1, - 1, 0],
      [1, 0, 1], [- 1, 0, 1], [1, 0, - 1], [- 1, 0, - 1],
      [0, 1, 1], [0, - 1, 1], [0, 1, - 1], [0, - 1, - 1]]"

text \<open>
  One corner of \<^verbatim>\<open>noise2D\<close>: \<^verbatim>\<open>let t = 0.5 - x*x - y*y; if (t >= 0) { t *= t; n = t * t *
  (grad3[gi][0] * x + grad3[gi][1] * y) }\<close>, and \<open>n = 0\<close> otherwise.
\<close>

definition corner :: "nat \<Rightarrow> real \<Rightarrow> real \<Rightarrow> real" where
  "corner gi x y =
     (let t = 0.5 - x * x - y * y
      in if t \<ge> 0 then (let t' = t * t in t' * t' * (grad3 ! gi ! 0 * x + grad3 ! gi ! 1 * y))
         else 0)"

text \<open>
  \<^verbatim>\<open>SimplexNoise.noise2D\<close> at a finite point. \<^verbatim>\<open>i & 255\<close> of the integer \<open>i\<close> is
  \<open>i mod 256\<close>. The tables have 512 entries and the largest index read is 511.
\<close>

definition noise2D_fin :: "SimplexNoise \<Rightarrow> real \<Rightarrow> real \<Rightarrow> real" where
  "noise2D_fin sn x y =
     (let s = (x + y) * F2;
          i = \<lfloor>x + s\<rfloor>;
          j = \<lfloor>y + s\<rfloor>;
          t = of_int (i + j) * G2;
          X0 = of_int i - t;
          Y0 = of_int j - t;
          x0 = x - X0;
          y0 = y - Y0;
          i1 = (if x0 > y0 then 1 else 0 :: nat);
          j1 = (if x0 > y0 then 0 else 1 :: nat);
          x1 = x0 - real i1 + G2;
          y1 = y0 - real j1 + G2;
          x2 = x0 - 1 + 2 * G2;
          y2 = y0 - 1 + 2 * G2;
          ii = nat (i mod 256);
          jj = nat (j mod 256);
          gi0 = permMod12 sn ! (ii + perm sn ! jj);
          gi1 = permMod12 sn ! (ii + i1 + perm sn ! (jj + j1));
          gi2 = permMod12 sn ! (ii + 1 + perm sn ! (jj + 1));
          n0 = corner gi0 x0 y0;
          n1 = corner gi1 x1 y1;
          n2 = corner gi2 x2 y2
      in 70 * (n0 + n1 + n2))"

text \<open>
  \<^verbatim>\<open>noise2D\<close> at any number. When an argument is not finite, \<open>s\<close> is infinite or \<^verbatim>\<open>NaN\<close>, so
  \<open>i\<close>, \<open>j\<close> and \<open>t\<close> are, \<open>X0 = i - t\<close> and \<open>Y0 = j - t\<close> are \<^verbatim>\<open>NaN\<close>, every \<^verbatim>\<open>t >= 0\<close> test is
  false and the three contributions keep their initial value 0: the result is \<open>70 * 0\<close>.
\<close>

fun noise2D :: "SimplexNoise \<Rightarrow> jsnum \<Rightarrow> jsnum \<Rightarrow> real" where
  "noise2D sn (Fin x) (Fin y) = noise2D_fin sn x y"
| "noise2D sn _ _ = 0"

section \<open>SDF.ts: the distance field and its sampling\<close>

text \<open>
  The three grids are \<^verbatim>\<open>Float32Array\<close>s: lists of numbers, read in arithmetic, so a read
  outside the array (\<^verbatim>\<open>undefined\<close>) is \<^verbatim>\<open>NaN\<close>.
\<close>

record SDF =
  grid :: "jsnum list"
  gradientX :: "jsnum list"
  gradientY :: "jsnum list"
  gridWidth :: nat
  gridHeight :: nat
  resolution :: real
  loaded :: bool

definition SDF_new :: "real \<Rightarrow> SDF" where
  "SDF_new res =
     \<lparr> grid = [], gradientX = [], gradientY = [], gridWidth = 0, gridHeight = 0,
       resolution = res, loaded = False \<rparr>"

definition clear :: "SDF \<Rightarrow> SDF" where
  "clear s = s\<lparr> grid := [], gradientX := [], gradientY := [], loaded := False \<rparr>"

definition isLoaded :: "SDF \<Rightarrow> bool" where
  "isLoaded s = loaded s"

text \<open>
  \<^verbatim>\<open>grid[k]\<close> for a number \<open>k\<close>: the element when \<open>k\<close> is an integer index inside the array.
\<close>

fun f32_get :: "jsnum list \<Rightarrow> jsnum \<Rightarrow> jsnum" where
  "f32_get g (Fin k) = (if valid_index g k then g ! nat \<lfloor>k\<rfloor> else NaN)"
| "f32_get g _ = NaN"

definition getGridValue :: "SDF \<Rightarrow> jsnum list \<Rightarrow> jsnum \<Rightarrow> jsnum \<Rightarrow> jsnum" where
  "getGridValue s g x y =
     (if js_lt x (Fin 0) \<or> js_ge x (Fin (real (gridWidth s)))
         \<or> js_lt y (Fin 0) \<or> js_ge y (Fin (real (gridHeight s)))
      then PInf
      else f32_get g (js_add (js_mul y (Fin (real (gridWidth s)))) x))"

definition sampleBilinear :: "SDF \<Rightarrow> jsnum list \<Rightarrow> jsnum \<Rightarrow> jsnum \<Rightarrow> jsnum" where
  "sampleBilinear s g gx gy =
     (let x0 = js_floor gx;
          y0 = js_floor gy;
          x1 = js_min (js_add x0 (Fin 1)) (Fin (real (gridWidth s) - 1));
          y1 = js_min (js_add y0 (Fin 1)) (Fin (real (gridHeight s) - 1));
          fx = js_sub gx x0;
          fy = js_sub gy y0;
          v00 = getGridValue s g x0 y0;
          v10 = getGridValue s g x1 y0;
          v01 = getGridValue s g x0 y1;
          v11 = getGridValue s g x1 y1;
          v0 = js_add (js_mul v00 (js_sub (Fin 1) fx)) (js_mul v10 fx);
          v1 = js_add (js_mul v01 (js_sub (Fin 1) fx)) (js_mul v11 fx)
      in js_add (js_mul v0 (js_sub (Fin 1) fy)) (js_mul v1 fy))"

definition getDistance :: "SDF \<Rightarrow> jsnum \<Rightarrow> jsnum \<Rightarrow> jsnum" where
  "getDistance s x y =
     (if \<not> loaded s then PInf
      else let gx = js_div x (Fin (resolution s));
               gy = js_div y (Fin (resolution s))
           in sampleBilinear s (grid s) gx gy)"

definition getGradient :: "SDF \<Rightarrow> jsnum \<Rightarrow> jsnum \<Rightarrow> jsnum \<times> jsnum" where
  "getGradient s x y =
     (if \<not> loaded s then (Fin 0, Fin 0)
      else let gx = js_div x (Fin (resolution s));
               gy = js_div y (Fin (resolution s));
               gradX = sampleBilinear s (gradientX s) gx gy;
               gradY = sampleBilinear s (gradientY s) gx gy;
               len = js_sqrt (js_add (js_mul gradX gradX) (js_mul gradY gradY))
           in if js_lt len (Fin 0.0001) then (Fin 0, Fin 0)
              else (js_div gradX len, js_div gradY len))"

section \<open>FlowField.ts\<close>

text \<open>
  The field \<^verbatim>\<open>sdf\<close> is a reference to an \<^verbatim>\<open>SDF\<close> or \<^verbatim>\<open>null\<close>; the model holds the value the
  reference points to at the time of the call. The configuration numbers (scale, octaves,
  offset, strength, falloff) are finite. The ambient \<^verbatim>\<open>Math.random()\<close> is an explicit
  argument \<open>rnd\<close>, used only where the source calls it.
\<close>

record FlowField =
  noise :: SimplexNoise
  scale :: real
  octaves :: real
  zOffset :: real
  sdf :: "SDF option"
  sdfStrength :: real
  sdfFalloff :: real

definition FlowField_new :: "real \<Rightarrow> real option \<Rightarrow> real \<Rightarrow> FlowField" where
  "FlowField_new sc seed rnd =
     \<lparr> noise = SimplexNoise_new (case seed of Some sd \<Rightarrow> sd | None \<Rightarrow> rnd * 2147483647),
       scale = sc, octaves = 1, zOffset = 0, sdf = None, sdfStrength = 1.0, sdfFalloff = 50 \<rparr>"

definition noise3D :: "FlowField \<Rightarrow> jsnum \<Rightarrow> jsnum \<Rightarrow> real \<Rightarrow> real" where
  "noise3D ff x y z =
     (let xy = noise2D (noise ff) x y;
          xz = noise2D (noise ff) (js_add x (Fin 1000)) (Fin z);
          yz = noise2D (noise ff) (js_add y (Fin 2000)) (Fin z)
      in (xy + xz + yz) / 3)"

text \<open>
  The loop of \<^verbatim>\<open>getAngle\<close>, \<^verbatim>\<open>for (let i = 0; i < this.octaves; i++)\<close>, with its four
  variables; it returns \<open>(noiseValue, maxValue)\<close>.
\<close>

function fbm :: "FlowField \<Rightarrow> jsnum \<Rightarrow> jsnum \<Rightarrow> nat \<Rightarrow> real \<Rightarrow> real \<Rightarrow> real \<Rightarrow> real \<Rightarrow> real \<times> real" where
  "fbm ff x y i noiseValue amplitude frequency maxValue =
     (if real i < octaves ff
      then fbm ff x y (i + 1)
             (noiseValue + amplitude *
                noise3D ff (js_mul x (Fin frequency)) (js_mul y (Fin frequency)) (zOffset ff))
             (amplitude * 0.5) (frequency * 2) (maxValue + amplitude)
      else (noiseValue, maxValue))"
  by pat_completeness auto
termination
  by (relation "measure (\<lambda>(ff, x, y, i, _). nat \<lceil>octaves ff\<rceil> - i)") (auto, linarith)

declare fbm.simps [simp del]

definition getAngle :: "FlowField \<Rightarrow> jsnum \<Rightarrow> jsnum \<Rightarrow> jsnum" where
  "getAngle ff x y =
     (case fbm ff x y 0 0 1 (scale ff) 0 of
        (noiseValue, maxValue) \<Rightarrow>
          js_mul (js_add (js_div (Fin noiseValue) (Fin maxValue)) (Fin 1)) (Fin pi))"

text \<open>
  The body of \<^verbatim>\<open>if (this.sdf && this.sdf.isLoaded()) { ... }\<close> in \<^verbatim>\<open>getVector\<close>: from the
  base vector \<open>(vx, vy)\<close> to the blended one.
\<close>

definition sdfBlend :: "FlowField \<Rightarrow> SDF \<Rightarrow> jsnum \<Rightarrow> jsnum \<Rightarrow> jsnum \<times> jsnum \<Rightarrow> jsnum \<times> jsnum" where
  "sdfBlend ff s x y v =
     (case v of (vx, vy) \<Rightarrow>
      let distance = getDistance s x y;
          gradient = getGradient s x y;
          absDistance = js_abs distance
      in if js_lt absDistance (Fin (sdfFalloff ff))
            \<and> (js_neq (fst gradient) (Fin 0) \<or> js_neq (snd gradient) (Fin 0))
         then
           let t = js_div absDistance (Fin (sdfFalloff ff));
               influence = js_mul (js_sub (Fin 1) (js_mul t t)) (Fin (sdfStrength ff));
               tangent =
                 (if js_lt distance (Fin 0) then (fst gradient, snd gradient)
                  else let dot = js_add (js_mul vx (js_neg (snd gradient)))
                                        (js_mul vy (fst gradient))
                       in if js_ge dot (Fin 0) then (js_neg (snd gradient), fst gradient)
                          else (snd gradient, js_neg (fst gradient)))
           in (js_add (js_mul vx (js_sub (Fin 1) influence)) (js_mul (fst tangent) influence),
               js_add (js_mul vy (js_sub (Fin 1) influence)) (js_mul (snd tangent) influence))
         else (vx, vy))"

text \<open>The vector of \<^verbatim>\<open>getVector\<close> before its last step, \<^verbatim>\<open>// Normalize result\<close>.\<close>

definition blended :: "FlowField \<Rightarrow> jsnum \<Rightarrow> jsnum \<Rightarrow> jsnum \<times> jsnum" where
  "blended ff x y =
     (let angle = getAngle ff x y;
          v = (js_cos angle, js_sin angle)
      in case sdf ff of
           None \<Rightarrow> v
         | Some s \<Rightarrow> if isLoaded s then sdfBlend ff s x y v else v)"

definition vec_len :: "jsnum \<times> jsnum \<Rightarrow> jsnum" where
  "vec_len v = js_sqrt (js_add (js_mul (fst v) (fst v)) (js_mul (snd v) (snd v)))"

definition getVector :: "FlowField \<Rightarrow> jsnum \<Rightarrow> jsnum \<Rightarrow> jsnum \<times> jsnum" where
  "getVector ff x y =
     (let v = blended ff x y;
          len = vec_len v
      in if js_gt len (Fin 0.0001) then (js_div (fst v) len, js_div (snd v) len) else v)"

definition setScale :: "real \<Rightarrow> FlowField \<Rightarrow> FlowField" where
  "setScale sc ff = ff\<lparr> scale := sc \<rparr>"

definition setOctaves :: "real \<Rightarrow> FlowField \<Rightarrow> FlowField" where
  "setOctaves n ff = ff\<lparr> octaves := max 1 (min 8 n) \<rparr>"

definition evolve :: "real \<Rightarrow> FlowField \<Rightarrow> FlowField" where
  "evolve amount ff = ff\<lparr> zOffset := zOffset ff + amount \<rparr>"

definition resetEvolution :: "FlowField \<Rightarrow> FlowField" where
  "resetEvolution ff = ff\<lparr> zOffset := 0 \<rparr>"

definition regenerate :: "real option \<Rightarrow> real \<Rightarrow> FlowField \<Rightarrow> FlowField" where
  "regenerate seed rnd ff =
     ff\<lparr> noise := SimplexNoise_new (case seed of Some sd \<Rightarrow> sd | None \<Rightarrow> rnd * 2147483647),
         zOffset := 0 \<rparr>"

definition setSDF :: "SDF option \<Rightarrow> FlowField \<Rightarrow> FlowField" where
  "setSDF s ff = ff\<lparr> sdf := s \<rparr>"

definition setSDFStrength :: "real \<Rightarrow> FlowField \<Rightarrow> FlowField" where
  "setSDFStrength strength ff = ff\<lparr> sdfStrength := max 0 (min 2 strength) \<rparr>"

definition setSDFFalloff :: "real \<Rightarrow> FlowField \<Rightarrow> FlowField" where
  "setSDFFalloff falloff ff = ff\<lparr> sdfFalloff := max 1 falloff \<rparr>"

text \<open>The mutating methods of a \<^verbatim>\<open>FlowField\<close>, as values, and a run of calls on one field.\<close>

datatype FlowOp =
    SetScale real
  | SetOctaves real
  | Evolve real
  | ResetEvolution
  | Regenerate "real option" real
  | SetSDF "SDF option"
  | SetSDFStrength real
  | SetSDFFalloff real

fun apply_op :: "FlowField \<Rightarrow> FlowOp \<Rightarrow> FlowField" where
  "apply_op ff (SetScale sc) = setScale sc ff"
| "apply_op ff (SetOctaves n) = setOctaves n ff"
| "apply_op ff (Evolve a) = evolve a ff"
| "apply_op ff ResetEvolution = resetEvolution ff"
| "apply_op ff (Regenerate seed rnd) = regenerate seed rnd ff"
| "apply_op ff (SetSDF s) = setSDF s ff"
| "apply_op ff (SetSDFStrength st) = setSDFStrength st ff"
| "apply_op ff (SetSDFFalloff fo) = setSDFFalloff fo ff"

definition run_ops :: "FlowField \<Rightarrow> FlowOp list \<Rightarrow> FlowField" where
  "run_ops ff ops = foldl apply_op ff ops"

section \<open>Particle.ts\<close>

text \<open>
  A particle's position can leave the finite numbers (a \<^verbatim>\<open>NaN\<close> flow vector makes it
  \<^verbatim>\<open>NaN\<close>), so the positions are \<open>jsnum\<close>; speed and bounds are finite.
\<close>

record Particle =
  pos_x :: jsnum
  pos_y :: jsnum
  prevX :: jsnum
  prevY :: jsnum
  speed :: real
  baseSpeed :: real
  width :: real
  height :: real

definition update :: "FlowField \<Rightarrow> Particle \<Rightarrow> Particle" where
  "update flowField p =
     (let prevX0 = pos_x p;
          prevY0 = pos_y p;
          vector = getVector flowField (pos_x p) (pos_y p);
          x1 = js_add (pos_x p) (js_mul (fst vector) (Fin (speed p)));
          y1 = js_add (pos_y p) (js_mul (snd vector) (Fin (speed p)));
          x2 = (if js_lt x1 (Fin 0) then Fin (width p) else x1);
          x3 = (if js_gt x2 (Fin (width p)) then Fin 0 else x2);
          y2 = (if js_lt y1 (Fin 0) then Fin (height p) else y1);
          y3 = (if js_gt y2 (Fin (height p)) then Fin 0 else y2);
          prevX1 = (if js_gt (js_abs (js_sub x3 prevX0)) (Fin (width p / 2)) then x3 else prevX0);
          prevY1 = (if js_gt (js_abs (js_sub y3 prevY0)) (Fin (height p / 2)) then y3 else prevY0)
      in p\<lparr> pos_x := x3, pos_y := y3, prevX := prevX1, prevY := prevY1 \<rparr>)"

section \<open>SDF.ts: building the distance field\<close>

text \<open>
  Reads and writes of the scratch arrays at an integer key. \<^verbatim>\<open>Float32Array\<close> and
  \<^verbatim>\<open>Int32Array\<close> ignore a write outside the array and read \<^verbatim>\<open>undefined\<close> there: \<^verbatim>\<open>NaN\<close> in
  arithmetic for a float, \<open>None\<close> for an index.
\<close>

definition f32_at :: "jsnum list \<Rightarrow> int \<Rightarrow> jsnum" where
  "f32_at g k = (if 0 \<le> k \<and> k < int (length g) then g ! nat k else NaN)"

definition f32_put :: "jsnum list \<Rightarrow> int \<Rightarrow> jsnum \<Rightarrow> jsnum list" where
  "f32_put g k a = (if 0 \<le> k \<and> k < int (length g) then g[nat k := a] else g)"

definition i32_at :: "int list \<Rightarrow> int \<Rightarrow> int option" where
  "i32_at v k = (if 0 \<le> k \<and> k < int (length v) then Some (v ! nat k) else None)"

definition i32_put :: "int list \<Rightarrow> int \<Rightarrow> int \<Rightarrow> int list" where
  "i32_put v k a = (if 0 \<le> k \<and> k < int (length v) then v[nat k := a] else v)"

text \<open>
  One relaxation of the horizontal pass:
  \<^verbatim>\<open>if (dist[idx] > dist[nb] + 1) dist[idx] = dist[nb] + 1\<close>.
\<close>

definition relax :: "jsnum list \<Rightarrow> int \<Rightarrow> int \<Rightarrow> jsnum list" where
  "relax dst idx nb =
     (if js_gt (f32_at dst idx) (js_add (f32_at dst nb) (Fin 1))
      then f32_put dst idx (js_add (f32_at dst nb) (Fin 1))
      else dst)"

text \<open>
  The horizontal pass: for each row \<open>y\<close>, the forward scan \<open>x = 1, ..., w - 1\<close> against the
  left neighbour, then the backward scan \<open>x = w - 2, ..., 0\<close> against the right one.
\<close>

definition horizontalPass :: "nat \<Rightarrow> nat \<Rightarrow> jsnum list \<Rightarrow> jsnum list" where
  "horizontalPass w h dst =
     fold (\<lambda>y d.
             fold (\<lambda>x d'. relax d' (int (y * w + x)) (int (y * w + x) + 1)) (rev [0..<w - 1])
               (fold (\<lambda>x d'. relax d' (int (y * w + x)) (int (y * w + x) - 1)) [1..<w] d))
          [0..<h] dst"

text \<open>
  The intersection abscissa of the vertical pass,
  \<^verbatim>\<open>((f[q] + q * q) - (f[v[k]] + v[k] * v[k])) / (2 * q - 2 * v[k])\<close>; with \<open>v[k]\<close> undefined
  it is \<^verbatim>\<open>NaN\<close>.
\<close>

definition intersect :: "jsnum list \<Rightarrow> int list \<Rightarrow> nat \<Rightarrow> int \<Rightarrow> jsnum" where
  "intersect f v q k =
     (case i32_at v k of
        None \<Rightarrow> NaN
      | Some vk \<Rightarrow>
          js_div (js_sub (js_add (f32_at f (int q)) (Fin (real (q * q))))
                         (js_add (f32_at f vk) (Fin (of_int (vk * vk)))))
                 (Fin (of_int (2 * int q - 2 * vk))))"

text \<open>
  \<^verbatim>\<open>while (s <= z[k]) { k--; s = ... }\<close>. With \<open>k < 0\<close> the read \<open>z[k]\<close> is undefined and the
  comparison false, so the loop stops there at the latest.
\<close>

function pop :: "jsnum list \<Rightarrow> int list \<Rightarrow> jsnum list \<Rightarrow> nat \<Rightarrow> int \<Rightarrow> jsnum \<Rightarrow> int \<times> jsnum" where
  "pop f v z q k s =
     (if js_le s (f32_at z k) then pop f v z q (k - 1) (intersect f v q (k - 1)) else (k, s))"
  by pat_completeness auto
termination
proof (relation "measure (\<lambda>(f, v, z, q, k, s). nat (k + 1))")
  show "wf (measure (\<lambda>(f, v, z, q, k, s). nat (k + 1)))"
    by simp
next
  fix f v z :: "jsnum list" and v' :: "int list" and q :: nat and k :: int and s :: jsnum
  assume "js_le s (f32_at z k)"
  then have "0 \<le> k"
    by (cases "0 \<le> k") (simp_all add: f32_at_def, cases s, simp_all)
  then show "((f, v', z, q, k - 1, intersect f v' q (k - 1)), (f, v', z, q, k, s))
      \<in> measure (\<lambda>(f, v, z, q, k, s). nat (k + 1))"
    by simp
qed

declare pop.simps [simp del]

text \<open>
  One round \<open>q\<close> of the lower-envelope loop, on the state \<open>(k, v, z)\<close>:
  \<^verbatim>\<open>let s = ...; while ...; k++; v[k] = q; z[k] = s; z[k + 1] = INF\<close>.
\<close>

definition envelopeStep ::
  "jsnum list \<Rightarrow> real \<Rightarrow> nat \<Rightarrow> int \<times> int list \<times> jsnum list \<Rightarrow> int \<times> int list \<times> jsnum list" where
  "envelopeStep f infty q st =
     (case st of (k, v, z) \<Rightarrow>
      case pop f v z q k (intersect f v q k) of (k1, s) \<Rightarrow>
        let k2 = k1 + 1
        in (k2, i32_put v k2 (int q), f32_put (f32_put z k2 s) (k2 + 1) (Fin infty)))"

text \<open>\<^verbatim>\<open>while (z[k + 1] < y) k++\<close>.\<close>

function advance :: "jsnum list \<Rightarrow> nat \<Rightarrow> int \<Rightarrow> int" where
  "advance z y k = (if js_lt (f32_at z (k + 1)) (Fin (real y)) then advance z y (k + 1) else k)"
  by pat_completeness auto
termination
proof (relation "measure (\<lambda>(z, y, k). nat (int (length z) - k))")
  show "wf (measure (\<lambda>(z, y, k). nat (int (length z) - k)))"
    by simp
next
  fix z :: "jsnum list" and y :: nat and k :: int
  assume "js_lt (f32_at z (k + 1)) (Fin (real y))"
  then have "k + 1 < int (length z)"
    by (cases "k + 1 < int (length z)") (simp_all add: f32_at_def)
  then show "((z, y, k + 1), (z, y, k)) \<in> measure (\<lambda>(z, y, k). nat (int (length z) - k))"
    by simp
qed

declare advance.simps [simp del]

text \<open>
  One round \<open>y\<close> of the fill loop of column \<open>x\<close>, on the state \<open>(k, dst)\<close>:
  \<^verbatim>\<open>while ...; const dy = y - v[k]; dist[y * w + x] = f[v[k]] + dy * dy\<close>.
\<close>

definition fillStep ::
  "nat \<Rightarrow> nat \<Rightarrow> jsnum list \<Rightarrow> int list \<Rightarrow> jsnum list \<Rightarrow> nat \<Rightarrow> int \<times> jsnum list \<Rightarrow> int \<times> jsnum list" where
  "fillStep w x f v z y st =
     (case st of (k, dst) \<Rightarrow>
      let k1 = advance z y k;
          dy = (case i32_at v k1 of None \<Rightarrow> NaN | Some vk \<Rightarrow> Fin (real y - of_int vk));
          fv = (case i32_at v k1 of None \<Rightarrow> NaN | Some vk \<Rightarrow> f32_at f vk)
      in (k1, f32_put dst (int (y * w + x)) (js_add fv (js_mul dy dy))))"

text \<open>
  Column \<open>x\<close> of the vertical pass, on the state \<open>(dst, f, v, z)\<close>; the scratch arrays \<open>f\<close>,
  \<open>v\<close> and \<open>z\<close> are allocated once and reused for every column.
\<close>

definition columnPass ::
  "nat \<Rightarrow> nat \<Rightarrow> real \<Rightarrow> nat \<Rightarrow> jsnum list \<times> jsnum list \<times> int list \<times> jsnum list
     \<Rightarrow> jsnum list \<times> jsnum list \<times> int list \<times> jsnum list" where
  "columnPass w h infty x st =
     (case st of (dst, f, v, z) \<Rightarrow>
      let f1 = fold (\<lambda>y f'. f32_put f' (int y)
                      (js_mul (f32_at dst (int (y * w + x))) (f32_at dst (int (y * w + x)))))
                 [0..<h] f;
          v1 = i32_put v 0 0;
          z1 = f32_put (f32_put z 0 (Fin (- infty))) 1 (Fin infty)
      in case fold (envelopeStep f1 infty) [1..<h] (0, v1, z1) of (k, v2, z2) \<Rightarrow>
           (snd (fold (fillStep w x f1 v2 z2) [0..<h] (0, dst)), f1, v2, z2))"

definition distanceTransform2D :: "jsnum list \<Rightarrow> nat \<Rightarrow> nat \<Rightarrow> jsnum list" where
  "distanceTransform2D dst w h =
     (let infty = real ((w + h) * (w + h));
          d1 = horizontalPass w h dst;
          f = replicate h (Fin 0);
          v = replicate h 0;
          z = replicate (h + 1) (Fin 0)
      in fst (fold (columnPass w h infty) [0..<w] (d1, f, v, z)))"

text \<open>\<^verbatim>\<open>inside[i]\<close> as a condition: the element is there and not zero.\<close>

definition truthy :: "nat list \<Rightarrow> nat \<Rightarrow> bool" where
  "truthy inside i = (i < length inside \<and> inside ! i \<noteq> 0)"

definition computeDistanceField :: "SDF \<Rightarrow> nat list \<Rightarrow> jsnum list" where
  "computeDistanceField s inside =
     (let w = gridWidth s;
          h = gridHeight s;
          infty = real (w + h);
          distOutside0 = map (\<lambda>i. if truthy inside i then Fin 0 else Fin infty) [0..<w * h];
          distInside0 = map (\<lambda>i. if truthy inside i then Fin infty else Fin 0) [0..<w * h];
          distOutside = distanceTransform2D distOutside0 w h;
          distInside = distanceTransform2D distInside0 w h
      in map (\<lambda>i. let dOut = js_mul (js_sqrt (f32_at distOutside (int i))) (Fin (resolution s));
                      dIn = js_mul (js_sqrt (f32_at distInside (int i))) (Fin (resolution s))
                  in if truthy inside i then js_neg dIn else dOut)
           [0..<w * h])"

text \<open>
  \<^verbatim>\<open>computeGradients\<close>: the two nested loops write every cell \<open>idx = y * w + x\<close> once, from
  the distance grid alone, so the model computes the cells in index order.
\<close>

definition computeGradients :: "SDF \<Rightarrow> SDF" where
  "computeGradients s =
     (let w = gridWidth s;
          h = gridHeight s;
          gX = map (\<lambda>idx. let y = idx div w; x = idx mod w;
                             x0 = max 0 (int x - 1);
                             x1 = min (int w - 1) (int x + 1)
                         in js_div (js_sub (f32_at (grid s) (int (y * w) + x1))
                                           (f32_at (grid s) (int (y * w) + x0)))
                                   (Fin (of_int (x1 - x0) * resolution s)))
                 [0..<w * h];
          gY = map (\<lambda>idx. let y = idx div w; x = idx mod w;
                             y0 = max 0 (int y - 1);
                             y1 = min (int h - 1) (int y + 1)
                         in js_div (js_sub (f32_at (grid s) (y1 * int w + int x))
                                           (f32_at (grid s) (y0 * int w + int x)))
                                   (Fin (of_int (y1 - y0) * resolution s)))
                 [0..<w * h]
      in s\<lparr> gradientX := gX, gradientY := gY \<rparr>)"

text \<open>
  \<^verbatim>\<open>fromSVG\<close>. Loading and rasterising the image is the browser's work: \<open>img\<close> is \<open>None\<close>
  when the image fails to load (\<^verbatim>\<open>img.onerror\<close>), and otherwise holds the RGBA byte array that
  \<^verbatim>\<open>getImageData\<close> returns for the grid-sized canvas. A cell is inside when the sum of its
  three colour bytes exceeds 384.

  The call is rejected, and \<^verbatim>\<open>loaded\<close> is not set, in four cases: the image does not load;
  the resolution is 0, so that the grid sizes are infinite or \<^verbatim>\<open>NaN\<close> and \<^verbatim>\<open>getImageData\<close>
  refuses them; a grid size is 0, which \<^verbatim>\<open>getImageData\<close> refuses too; a grid size is negative,
  so that a typed array is asked for with a negative length (\<^verbatim>\<open>new Uint8Array(w * h)\<close> when
  one size is negative, \<^verbatim>\<open>new Float32Array(h)\<close> in \<^verbatim>\<open>distanceTransform2D\<close> when both are).
  The object is not used after a rejected call in what follows; its fields \<^verbatim>\<open>gridWidth\<close> and
  \<^verbatim>\<open>gridHeight\<close> have then been assigned and the others not.
\<close>

datatype load_error = LoadFailed | ImageDataRefused | RangeError

definition bright :: "nat list \<Rightarrow> nat \<Rightarrow> bool" where
  "bright pixels i =
     (i * 4 + 2 < length pixels
      \<and> pixels ! (i * 4) + pixels ! (i * 4 + 1) + pixels ! (i * 4 + 2) > 384)"

definition fromSVG :: "SDF \<Rightarrow> real \<Rightarrow> real \<Rightarrow> nat list option \<Rightarrow> load_error + SDF" where
  "fromSVG s canvasWidth canvasHeight img =
     (case img of
        None \<Rightarrow> Inl LoadFailed
      | Some pixels \<Rightarrow>
          if resolution s = 0 then Inl ImageDataRefused
          else
            let gw = \<lceil>canvasWidth / resolution s\<rceil>;
                gh = \<lceil>canvasHeight / resolution s\<rceil>
            in if gw = 0 \<or> gh = 0 then Inl ImageDataRefused
               else if gw < 0 \<or> gh < 0 then Inl RangeError
               else
                 let w = nat gw;
                     h = nat gh;
                     s1 = s\<lparr> gridWidth := w, gridHeight := h \<rparr>;
                     inside = map (\<lambda>i. if bright pixels i then 1 else 0) [0..<w * h];
                     s2 = s1\<lparr> grid := computeDistanceField s1 inside \<rparr>;
                     s3 = computeGradients s2
                 in Inr (s3\<lparr> loaded := True \<rparr>))"

text \<open>
  The constructor of a \<^verbatim>\<open>Particle\<close>; \<open>r1\<close>, \<open>r2\<close> and \<open>r3\<close> are its three \<^verbatim>\<open>Math.random()\<close>
  draws, in the order of the calls.
\<close>

definition Particle_new :: "real \<Rightarrow> real \<Rightarrow> real \<Rightarrow> real \<Rightarrow> real \<Rightarrow> real \<Rightarrow> real \<Rightarrow> Particle" where
  "Particle_new w h sp speedVariation r1 r2 r3 =
     \<lparr> pos_x = Fin (r2 * w), pos_y = Fin (r3 * h),
       prevX = Fin (r2 * w), prevY = Fin (r3 * h),
       speed = sp + (r1 - 0.5) * 2 * speedVariation, baseSpeed = sp,
       width = w, height = h \<rparr>"

section \<open>Predicates of the claims\<close>

text \<open>
  The grid coordinates of a world position fall outside the grid: the test of
  \<^verbatim>\<open>getGridValue\<close> on \<open>x / resolution\<close> and \<open>y / resolution\<close>.
\<close>

definition outsideGrid :: "SDF \<Rightarrow> jsnum \<Rightarrow> jsnum \<Rightarrow> bool" where
  "outsideGrid s x y =
     (let gx = js_div x (Fin (resolution s));
          gy = js_div y (Fin (resolution s))
      in js_lt gx (Fin 0) \<or> js_ge gx (Fin (real (gridWidth s)))
         \<or> js_lt gy (Fin 0) \<or> js_ge gy (Fin (real (gridHeight s))))"

text \<open>A sample that is \<^verbatim>\<open>Infinity\<close> or \<^verbatim>\<open>NaN\<close>, and a number that is not infinite.\<close>

definition not_finite :: "jsnum \<Rightarrow> bool" where
  "not_finite a = (a = PInf \<or> a = NaN)"

definition no_inf :: "jsnum \<Rightarrow> bool" where
  "no_inf a = (a \<noteq> PInf \<and> a \<noteq> NInf)"

text \<open>
  The property the specification states of \<^verbatim>\<open>getVector\<close>: the vector is exactly \<open>(0, 0)\<close> or
  has magnitude 1 within \<open>0.001\<close>.
\<close>

definition spec_unit_or_zero :: "jsnum \<times> jsnum \<Rightarrow> bool" where
  "spec_unit_or_zero v =
     (v = (Fin 0, Fin 0) \<or> (\<exists>a b. v = (Fin a, Fin b) \<and> \<bar>sqrt (a * a + b * b) - 1\<bar> \<le> 0.001))"


text \<open>
  The normalised fractal sum as the specification words it: octave \<open>i\<close> samples the noise at
  frequency \<open>scale * 2\<^sup>i\<close> with amplitude \<open>(1/2)\<^sup>i\<close>; the sum of \<open>amplitude * sample\<close> over the
  active octaves is divided by the sum of the amplitudes. The loop bound \<^verbatim>\<open>i < this.octaves\<close>
  makes \<open>\<lceil>octaves\<rceil>\<close> octaves active.
\<close>

definition octave_sample :: "FlowField \<Rightarrow> jsnum \<Rightarrow> jsnum \<Rightarrow> nat \<Rightarrow> real" where
  "octave_sample ff x y i =
     noise3D ff (js_mul x (Fin (scale ff * 2 ^ i))) (js_mul y (Fin (scale ff * 2 ^ i))) (zOffset ff)"

definition fbm_normalized :: "FlowField \<Rightarrow> jsnum \<Rightarrow> jsnum \<Rightarrow> real" where
  "fbm_normalized ff x y =
     (\<Sum>i<nat \<lceil>octaves ff\<rceil>. (1 / 2) ^ i * octave_sample ff x y i)
     / (\<Sum>i<nat \<lceil>octaves ff\<rceil>. (1 / 2) ^ i)"

text \<open>
  The distance the specification names: the squared Euclidean distance, in cells, between
  the cells \<open>i\<close> and \<open>j\<close> of a grid of width \<open>w\<close>, and the least of them from cell \<open>i\<close> to a cell
  of \<open>P\<close>. When \<open>P\<close> has no cell in the grid the value is \<open>(w + h)\<^sup>2\<close>, the square of the
  number the source fills the grid with.
\<close>

definition sq_dist :: "nat \<Rightarrow> nat \<Rightarrow> nat \<Rightarrow> real" where
  "sq_dist w i j =
     (real (i mod w) - real (j mod w)) * (real (i mod w) - real (j mod w))
     + (real (i div w) - real (j div w)) * (real (i div w) - real (j div w))"

definition nearest_sq :: "nat \<Rightarrow> nat \<Rightarrow> (nat \<Rightarrow> bool) \<Rightarrow> nat \<Rightarrow> real" where
  "nearest_sq w h P i =
     (let c = filter P [0..<w * h]
      in if c = [] then real ((w + h) * (w + h)) else Min (set (map (sq_dist w i) c)))"
section \<open>Invariants of the distance transform\<close>

text \<open>
  The number a cell of a distance array holds, and an array all of whose cells hold finite
  numbers. \<open>is_min v f n\<close>: \<open>v\<close> is the least of \<open>f 0, ..., f (n - 1)\<close>.
\<close>

fun fin_val :: "jsnum \<Rightarrow> real" where
  "fin_val (Fin r) = r"
| "fin_val _ = 0"

definition cell :: "jsnum list \<Rightarrow> nat \<Rightarrow> real" where
  "cell d i = fin_val (d ! i)"

definition all_fin :: "jsnum list \<Rightarrow> bool" where
  "all_fin d = (\<forall>i<length d. \<exists>r. d ! i = Fin r)"

definition is_min :: "real \<Rightarrow> (nat \<Rightarrow> real) \<Rightarrow> nat \<Rightarrow> bool" where
  "is_min v f n = ((\<forall>i<n. v \<le> f i) \<and> (\<exists>i<n. v = f i))"

text \<open>
  The parabola of row \<open>p\<close> in a column whose squared row distances are \<open>fr\<close>, and the abscissa
  where the parabolas of two rows cross, as the source computes it.
\<close>

definition parab :: "(nat \<Rightarrow> real) \<Rightarrow> nat \<Rightarrow> real \<Rightarrow> real" where
  "parab fr p t = fr p + (t - real p) * (t - real p)"

definition sep :: "(nat \<Rightarrow> real) \<Rightarrow> nat \<Rightarrow> nat \<Rightarrow> real" where
  "sep fr p q = ((fr q + real (q * q)) - (fr p + real (p * p))) / (2 * real q - 2 * real p)"

text \<open>
  The state \<open>(k, v, z)\<close> of the lower-envelope loop before round \<open>q\<close>: the rows \<open>v[0..k]\<close> are
  below \<open>q\<close>, the boundaries \<open>z[0..k+1]\<close> are finite and increase up to \<open>z[k]\<close>, with the
  sentinels \<open>-b\<close> and \<open>b\<close> at the two ends, and between \<open>z[i]\<close> and \<open>z[i+1]\<close> (from minus
  infinity for \<open>i = 0\<close>, to infinity for \<open>i = k\<close>) the parabola of row \<open>v[i]\<close> is the lowest of
  the parabolas of the rows below \<open>q\<close>.
\<close>

definition envelope ::
  "(nat \<Rightarrow> real) \<Rightarrow> real \<Rightarrow> nat \<Rightarrow> nat \<Rightarrow> int \<times> int list \<times> jsnum list \<Rightarrow> bool" where
  "envelope fr b h q st =
     (case st of (k, v, z) \<Rightarrow>
        0 \<le> k \<and> k < int q \<and> length v = h \<and> length z = h + 1
        \<and> (\<forall>i \<le> nat k. 0 \<le> v ! i \<and> v ! i < int q)
        \<and> (\<forall>i \<le> nat k + 1. \<exists>r. z ! i = Fin r)
        \<and> z ! 0 = Fin (- b) \<and> z ! (nat k + 1) = Fin b
        \<and> (\<forall>i < nat k. cell z i < cell z (i + 1))
        \<and> (\<forall>i \<le> nat k. \<forall>t. (i = 0 \<or> cell z i \<le> t) \<and> (i = nat k \<or> t \<le> cell z (i + 1)) \<longrightarrow>
              (\<forall>p<q. parab fr (nat (v ! i)) t \<le> parab fr p t)))"

section \<open>A bound for the three corners of the noise\<close>

text \<open>
  In the skewed coordinates of a cell, a corner at skew offset \<open>(a, b)\<close> has \<open>s = a + b\<close> and
  \<open>d = a - b\<close>; its attenuation is \<open>1/2 - s\<^sup>2/6 - d\<^sup>2/2\<close> and every gradient of \<^verbatim>\<open>grad3\<close> gives a
  dot product of size at most \<open>max (|s| / sqrt 3) |d|\<close>. \<open>corner_bound\<close> is the resulting bound of one
  contribution, \<open>noise_sum\<close> the bound of the three, at \<open>\<sigma> = u + v\<close> and \<open>\<delta> = |u - v|\<close> for the
  position \<open>(u, v)\<close> in the cell.
\<close>

definition corner_bound :: "real \<Rightarrow> real \<Rightarrow> real" where
  "corner_bound s d = (max 0 (1 / 2 - s * s / 6 - d * d / 2)) ^ 4 * max (\<bar>s\<bar> / sqrt 3) \<bar>d\<bar>"

definition noise_sum :: "real \<Rightarrow> real \<Rightarrow> real" where
  "noise_sum \<sigma> \<delta> = corner_bound \<sigma> \<delta> + corner_bound (1 - \<sigma>) (1 - \<delta>) + corner_bound (2 - \<sigma>) \<delta>"

text \<open>
  The bound of \<open>noise_sum\<close> on the box \<open>[i/50, (i+1)/50] \<times> [j/50, (j+1)/50]\<close>, in integers: the
  attenuation is largest at the corner of the box nearest to the lattice point and the dot
  product at the farthest, and \<open>57736 / 100000\<close> is above \<open>1 / sqrt 3\<close>. \<open>box_chk\<close> says that 70 times
  the bound is at most 1. The boxes with \<open>25 \<le> i\<close> and \<open>j < 6\<close> lie along the edge of the simplex,
  where the noise comes within 0.3 percent of 1; they are not checked in this way.
\<close>

definition tb :: "int \<Rightarrow> int \<Rightarrow> int" where
  "tb N L = (max 0 N) ^ 4 * L"

definition box_chk :: "int \<Rightarrow> int \<Rightarrow> bool" where
  "box_chk i j =
     (70 * (tb (7500 - i * i - 3 * (j * j)) (max ((i + 1) * 57736) ((j + 1) * 100000))
          + tb (7500 - (49 - i) * (49 - i) - 3 * ((49 - j) * (49 - j)))
               (max ((50 - i) * 57736) ((50 - j) * 100000))
          + tb (7500 - (99 - i) * (99 - i) - 3 * (j * j))
               (max ((100 - i) * 57736) ((j + 1) * 100000)))
      \<le> 15000 ^ 4 * 5000000)"

definition cell_ok :: "int \<Rightarrow> int \<Rightarrow> bool" where
  "cell_ok i j = ((25 \<le> i \<and> j < 6) \<or> box_chk i j)"

fun row_ok :: "int \<Rightarrow> nat \<Rightarrow> bool" where
  "row_ok i 0 = cell_ok i 0"
| "row_ok i (Suc j) = (cell_ok i (int (Suc j)) \<and> row_ok i j)"

fun rows_ok :: "nat \<Rightarrow> bool" where
  "rows_ok 0 = True"
| "rows_ok (Suc i) = (row_ok (int i) i \<and> rows_ok i)"

section \<open>Concrete states\<close>

text \<open>
  A field built with scale 0 and seed 0 and evolved by \<open>-2000\<close>: with scale 0 every position
  samples the noise at the same three points.
\<close>

definition field_uniform :: FlowField where
  "field_uniform = run_ops (FlowField_new 0 (Some 0) 0) [Evolve (- 2000)]"

text \<open>A field of scale 0.005 with seed 42, four octaves, evolved by 0.5.\<close>

definition field_fbm :: FlowField where
  "field_fbm = run_ops (FlowField_new 0.005 (Some 42) 0) [SetOctaves 4, Evolve 0.5]"

text \<open>
  Three particles in a 100 by 100 canvas, the random draws chosen so that they start at
  \<open>x = 0.01\<close> with speed \<open>-100\<close>, at \<open>x = 0.01\<close> with speed 2 and at \<open>x = 50\<close> with speed 2.
\<close>

definition particle_right :: Particle where
  "particle_right = Particle_new 100 100 (- 100) 0 0.5 0.0001 0.5"

definition particle_left :: Particle where
  "particle_left = Particle_new 100 100 2 0 0.5 0.0001 0.5"

definition particle_mid :: Particle where
  "particle_mid = Particle_new 100 100 2 0 0.5 0.5 0.5"

text \<open>
  A 3 by 2 mask whose two left columns are inside (white pixels) and whose right column is
  outside (black pixels), rasterised for a 12 by 8 canvas at resolution 4, the SDF that
  \<^verbatim>\<open>fromSVG\<close> loads from it, and its distance grid.
\<close>

definition pixels_example :: "nat list" where
  "pixels_example =
     [255, 255, 255, 255,  255, 255, 255, 255,  0, 0, 0, 255,
      255, 255, 255, 255,  255, 255, 255, 255,  0, 0, 0, 255]"

definition sdf_example :: SDF where
  "sdf_example =
     (case fromSVG (SDF_new 4) 12 8 (Some pixels_example) of Inr s \<Rightarrow> s | Inl e \<Rightarrow> SDF_new 4)"

definition grid_example :: "jsnum list" where
  "grid_example = [Fin (- 8), Fin (- 4), Fin 4, Fin (- 8), Fin (- 4), Fin 4]"

text \<open>
  A field with seed 0, evolved by \<open>-2000\<close>, with that distance field attached, strength 1.389
  and falloff 10, all set through the public methods.
\<close>

definition field_sdf :: FlowField where
  "field_sdf =
     run_ops (FlowField_new 1 (Some 0) 0)
       [Evolve (- 2000), SetSDF (Some sdf_example), SetSDFStrength 1.389, SetSDFFalloff 10]"

section \<open>Facts about the noise\<close>

lemma sqrt3_sq: "sqrt 3 * sqrt 3 = 3"
  by simp

lemma sqrt3_lower: "1.732 < sqrt 3"
  by (rule real_less_rsqrt) (simp add: power2_eq_square)

lemma sqrt3_upper: "sqrt 3 < 1.7321"
  by (rule real_less_lsqrt) (simp_all add: power2_eq_square)

lemma G2_sq: "G2 * G2 = (2 - sqrt 3) / 6"
proof -
  have "G2 * G2 = (9 - 6 * sqrt 3 + sqrt 3 * sqrt 3) / 36"
    unfolding G2_def by (simp add: algebra_simps)
  also have "\<dots> = (2 - sqrt 3) / 6"
    by (simp only: sqrt3_sq) simp
  finally show ?thesis .
qed

lemma corner_zero_origin: "corner gi 0 0 = 0"
  by (simp add: corner_def)

lemma corner_far: "x * x + y * y > 0.5 \<Longrightarrow> corner gi x y = 0"
  by (simp add: corner_def)

lemma far1: "G2 * G2 + (G2 - 1) * (G2 - 1) > 0.5"
proof -
  have "G2 * G2 + (G2 - 1) * (G2 - 1) = 2 * (G2 * G2) - 2 * G2 + 1"
    by (simp add: algebra_simps)
  also have "\<dots> = 2 / 3"
    by (simp only: G2_sq) (simp add: G2_def field_simps)
  finally show ?thesis by simp
qed

lemma far2: "(2 * G2 - 1) * (2 * G2 - 1) + (2 * G2 - 1) * (2 * G2 - 1) > 0.5"
proof -
  have "(2 * G2 - 1) * (2 * G2 - 1) = 4 * (G2 * G2) - 4 * G2 + 1"
    by (simp add: algebra_simps)
  also have "\<dots> = 1 / 3"
    by (simp only: G2_sq) (simp add: G2_def field_simps)
  finally show ?thesis by simp
qed

text \<open>At a vertex of the simplex lattice on the anti-diagonal the noise is zero.\<close>

lemma noise2D_fin_vertex: "noise2D_fin sn (of_int a) (- of_int a) = 0"
proof -
  have c1: "corner g G2 (G2 - 1) = 0" for g
    using far1 by (intro corner_far) simp
  have c2: "corner g (2 * G2 - 1) (2 * G2 - 1) = 0" for g
    using far2 by (intro corner_far) simp
  show ?thesis
    by (simp add: noise2D_fin_def Let_def corner_zero_origin c1 c2)
qed

lemma shuffle_zero_nth:
  "k < length p \<Longrightarrow> m < length p \<Longrightarrow>
   shuffle k 0 p ! m = (if m < k then p ! (m + 1) else if m = k then p ! 0 else p ! m)"
proof (induction k arbitrary: p m)
  case 0
  then show ?case by simp
next
  case (Suc k)
  let ?p' = "p[Suc k := p ! 0, 0 := p ! Suc k]"
  have step: "shuffle (Suc k) 0 p = shuffle k 0 ?p'"
    using Suc.prems
    by (simp add: js_rem_def js_trunc_def u8_get_def u8_set_def valid_index_def Let_def
          nat_add_distrib)
  have "shuffle k 0 ?p' ! m = (if m < k then ?p' ! (m + 1) else if m = k then ?p' ! 0 else ?p' ! m)"
    using Suc.prems by (intro Suc.IH) simp_all
  moreover have ne: "p \<noteq> []"
    using Suc.prems by auto
  moreover have "?p' ! 0 = p ! Suc k"
    using ne by simp
  ultimately show ?case
    using Suc.prems unfolding step by (auto simp: nth_list_update less_Suc_eq)
qed

lemma shuffle_length: "length (shuffle k n p) = length p"
  by (induction k arbitrary: n p) (simp_all add: Let_def u8_set_def)

lemma perm_seed0: "i < 512 \<Longrightarrow> buildPermutationTable 0 ! i = (i mod 256 + 1) mod 256"
proof -
  assume i: "i < 512"
  have "shuffle 255 0 [0..<256] ! (i mod 256)
      = (if i mod 256 < 255 then [0..<256] ! (i mod 256 + 1) else if i mod 256 = 255 then [0..<256] ! 0 else [0..<256] ! (i mod 256))"
    by (rule shuffle_zero_nth) simp_all
  also have "\<dots> = (i mod 256 + 1) mod 256"
    by (cases "i mod 256 < 255") (auto simp: nth_upt)
  finally show ?thesis
    using i by (simp add: buildPermutationTable_def Let_def del: upt.simps)
qed

lemma perm0: "i < 512 \<Longrightarrow> perm (SimplexNoise_new 0) ! i = (i mod 256 + 1) mod 256"
  by (simp add: SimplexNoise_new_def Let_def perm_seed0)

lemma permMod12_0:
  "i < 512 \<Longrightarrow> permMod12 (SimplexNoise_new 0) ! i = (i mod 256 + 1) mod 256 mod 12"
  by (simp add: SimplexNoise_new_def Let_def perm_seed0 del: upt.simps)

lemma floor_a: "\<lfloor>1500 - 500 * sqrt 3\<rfloor> = 633"
  using sqrt3_lower sqrt3_upper by (intro floor_unique) simp_all

lemma floor_b: "\<lfloor>- 1500 - 500 * sqrt 3\<rfloor> = - 2367"
  using sqrt3_lower sqrt3_upper by (intro floor_unique) simp_all

lemma corner_cancel: "corner 2 a a = 0"
  by (simp add: corner_def grad3_def Let_def)

lemma noise2D_fin_seed0_sample: "noise2D_fin (SimplexNoise_new 0) 1000 (- 2000) = 0"
proof -
  define u where "u = 289 * sqrt 3 - 500"
  have s: "(1000 + - 2000) * F2 = 500 - 500 * sqrt 3"
    by (simp add: F2_def algebra_simps)
  have i: "\<lfloor>1000 + (500 - 500 * sqrt 3)\<rfloor> = 633"
    using floor_a by (simp add: algebra_simps)
  have j: "\<lfloor>- 2000 + (500 - 500 * sqrt 3)\<rfloor> = - 2367"
    using floor_b by (simp add: algebra_simps)
  have t: "of_int (633 + - 2367) * G2 = 289 * sqrt 3 - 867"
    by (simp add: G2_def field_simps)
  have u_lo: "0.54 < u" and u_hi: "u < 0.6"
    using sqrt3_lower sqrt3_upper by (simp_all add: u_def)
  have c0: "corner g u u = 0" for g
  proof (rule corner_far)
    have "0.54 * 0.54 < u * u" using u_lo by (intro mult_strict_mono) simp_all
    then show "0.5 < u * u + u * u" by simp
  qed
  have g_lo: "0.2 < G2"
    using sqrt3_upper by (simp add: G2_def)
  have c1: "corner g (u + G2) (u - 1 + G2) = 0" for g
  proof (rule corner_far)
    have "0.74 * 0.74 < (u + G2) * (u + G2)"
      using u_lo g_lo by (intro mult_strict_mono) simp_all
    then have a: "0.5 < (u + G2) * (u + G2)" by simp
    have b: "0 \<le> (u - 1 + G2) * (u - 1 + G2)" by simp
    show "0.5 < (u + G2) * (u + G2) + (u - 1 + G2) * (u - 1 + G2)"
      using a b by linarith
  qed
  have x0: "1000 - (633 - (289 * sqrt 3 - 867)) = u" and y0: "- 2000 - (- 2367 - (289 * sqrt 3 - 867)) = u"
    by (simp_all add: u_def)
  have p194: "perm (SimplexNoise_new 0) ! 194 = 195"
    by (simp add: perm0)
  have p317: "permMod12 (SimplexNoise_new 0) ! 317 = 2"
    by (simp add: permMod12_0)
  show ?thesis
    unfolding noise2D_fin_def Let_def s i j t
    apply (simp only: of_int_numeral of_int_minus x0 y0)
    apply (simp add: c0 c1 p194 p317 corner_cancel)
    done
qed

section \<open>The octave count\<close>

lemma octaves_apply_op:
  "1 \<le> octaves ff \<and> octaves ff \<le> 8 \<Longrightarrow>
   1 \<le> octaves (apply_op ff op) \<and> octaves (apply_op ff op) \<le> 8"
  by (cases op)
     (simp_all add: setScale_def setOctaves_def evolve_def resetEvolution_def regenerate_def
        setSDF_def setSDFStrength_def setSDFFalloff_def)

lemma octaves_foldl:
  "1 \<le> octaves ff \<and> octaves ff \<le> 8 \<Longrightarrow>
   1 \<le> octaves (foldl apply_op ff ops) \<and> octaves (foldl apply_op ff ops) \<le> 8"
proof (induction ops arbitrary: ff)
  case Nil
  then show ?case by simp
next
  case (Cons op ops)
  have "1 \<le> octaves (apply_op ff op) \<and> octaves (apply_op ff op) \<le> 8"
    using Cons.prems by (rule octaves_apply_op)
  then show ?case using Cons.IH by simp
qed

text \<open>
  Claim C9. Whatever integer \<open>n\<close> is passed, \<^verbatim>\<open>setOctaves(n)\<close> leaves an octave count between
  1 and 8; \<^verbatim>\<open>setOctaves(0)\<close> gives 1 and \<^verbatim>\<open>setOctaves(99)\<close> gives 8; and after any run of
  method calls on a freshly constructed field the octave count is between 1 and 8.
\<close>

theorem setOctaves_clamped:
  "1 \<le> octaves (setOctaves (of_int n) ff) \<and> octaves (setOctaves (of_int n) ff) \<le> 8
   \<and> octaves (setOctaves 0 ff) = 1
   \<and> octaves (setOctaves 99 ff) = 8
   \<and> 1 \<le> octaves (run_ops (FlowField_new sc seed rnd) ops)
   \<and> octaves (run_ops (FlowField_new sc seed rnd) ops) \<le> 8"
proof -
  have "1 \<le> octaves (FlowField_new sc seed rnd) \<and> octaves (FlowField_new sc seed rnd) \<le> 8"
    by (simp add: FlowField_new_def)
  then have "1 \<le> octaves (run_ops (FlowField_new sc seed rnd) ops)
     \<and> octaves (run_ops (FlowField_new sc seed rnd) ops) \<le> 8"
    unfolding run_ops_def by (rule octaves_foldl)
  then show ?thesis by (simp add: setOctaves_def)
qed

section \<open>Regeneration\<close>

text \<open>
  Claim C10. \<^verbatim>\<open>regenerate(seed)\<close>, with or without a seed, leaves scale, octave count,
  attached SDF, SDF strength and SDF falloff as they were; the resulting state is the old
  one with a new noise instance and \<open>zOffset = 0\<close>.
\<close>

theorem regenerate_frame:
  "scale (regenerate seed rnd ff) = scale ff
   \<and> octaves (regenerate seed rnd ff) = octaves ff
   \<and> sdf (regenerate seed rnd ff) = sdf ff
   \<and> sdfStrength (regenerate seed rnd ff) = sdfStrength ff
   \<and> sdfFalloff (regenerate seed rnd ff) = sdfFalloff ff
   \<and> zOffset (regenerate seed rnd ff) = 0
   \<and> regenerate seed rnd ff
       = ff\<lparr> noise := noise (regenerate seed rnd ff), zOffset := 0 \<rparr>"
  by (simp add: regenerate_def)

lemma fbm_cong:
  "noise ff = noise ff' \<Longrightarrow> octaves ff = octaves ff' \<Longrightarrow> zOffset ff = zOffset ff' \<Longrightarrow>
   fbm ff x y i nv a f m = fbm ff' x y i nv a f m"
proof (induction ff x y i nv a f m rule: fbm.induct)
  case (1 ff x y i nv a f m)
  show ?case
  proof (cases "real i < octaves ff")
    case True
    then show ?thesis
      using 1 by (subst fbm.simps, subst (2) fbm.simps) (simp add: noise3D_def)
  next
    case False
    then show ?thesis using 1 by (subst fbm.simps, subst (2) fbm.simps) simp
  qed
qed

lemma getAngle_cong:
  "noise ff = noise ff' \<Longrightarrow> octaves ff = octaves ff' \<Longrightarrow> zOffset ff = zOffset ff' \<Longrightarrow>
   scale ff = scale ff' \<Longrightarrow> getAngle ff x y = getAngle ff' x y"
  unfolding getAngle_def using fbm_cong [of ff ff' x y 0 0 1 "scale ff" 0] by simp

text \<open>
  Claim C8. From any prior state, \<^verbatim>\<open>regenerate(42)\<close> followed by \<^verbatim>\<open>regenerate(42)\<close> gives a
  state whose \<^verbatim>\<open>getAngle\<close> agrees at every point with the state after the first call. The
  new noise is the one built from seed 42 whatever the previous noise and offset were (the
  prior state may have any noise \<open>nz\<close> and any offset \<open>z\<close>), and the offset is 0.
\<close>

theorem regenerate_twice_same_angle:
  "getAngle (regenerate (Some 42) rnd2 (regenerate (Some 42) rnd1 ff)) x y
     = getAngle (regenerate (Some 42) rnd1 ff) x y
   \<and> getAngle (regenerate (Some 42) rnd1 (ff\<lparr> noise := nz, zOffset := z \<rparr>)) x y
     = getAngle (regenerate (Some 42) rnd2 ff) x y
   \<and> noise (regenerate (Some 42) rnd1 ff) = SimplexNoise_new 42
   \<and> zOffset (regenerate (Some 42) rnd1 ff) = 0"
proof -
  have a: "getAngle (regenerate (Some 42) rnd2 (regenerate (Some 42) rnd1 ff)) x y
     = getAngle (regenerate (Some 42) rnd1 ff) x y"
    by (rule getAngle_cong) (simp_all add: regenerate_def)
  have b: "getAngle (regenerate (Some 42) rnd1 (ff\<lparr> noise := nz, zOffset := z \<rparr>)) x y
     = getAngle (regenerate (Some 42) rnd2 ff) x y"
    by (rule getAngle_cong) (simp_all add: regenerate_def)
  show ?thesis using a b by (simp add: regenerate_def)
qed
section \<open>Particle steps\<close>

lemma noise3D_seed0_zero:
  "noise ff = SimplexNoise_new 0 \<Longrightarrow> noise3D ff (Fin 0) (Fin 0) (- 2000) = 0"
  using noise2D_fin_vertex [of "SimplexNoise_new 0" 0]
        noise2D_fin_vertex [of "SimplexNoise_new 0" 2000]
  by (simp add: noise3D_def noise2D_fin_seed0_sample)

lemma getAngle_seed0_pi:
  assumes "noise ff = SimplexNoise_new 0" and "zOffset ff = - 2000" and "octaves ff = 1"
    and "a * scale ff = 0" and "b * scale ff = 0"
  shows "getAngle ff (Fin a) (Fin b) = Fin pi"
proof -
  have ma: "js_mul (Fin a) (Fin (scale ff)) = Fin 0" and mb: "js_mul (Fin b) (Fin (scale ff)) = Fin 0"
    using assms(4,5) by simp_all
  have "fbm ff (Fin a) (Fin b) 0 0 1 (scale ff) 0 = (0, 1)"
    apply (subst fbm.simps, subst fbm.simps)
    apply (simp only: ma mb)
    apply (simp add: assms(1-3) noise3D_seed0_zero)
    done
  then show ?thesis
    by (simp add: getAngle_def)
qed

lemma getVector_no_sdf:
  assumes "sdf ff = None" and "getAngle ff x y = Fin t"
  shows "getVector ff x y = (Fin (cos t), Fin (sin t))"
proof -
  have "blended ff x y = (Fin (cos t), Fin (sin t))"
    using assms by (simp add: blended_def)
  moreover have "cos t * cos t + sin t * sin t = 1"
    using sin_cos_squared_add3 [of t] by (simp add: algebra_simps)
  ultimately show ?thesis
    by (simp add: getVector_def vec_len_def js_gt_def)
qed

lemma field_uniform_fields:
  "noise field_uniform = SimplexNoise_new 0" "zOffset field_uniform = - 2000" "octaves field_uniform = 1" "scale field_uniform = 0"
  "sdf field_uniform = None"
  by (simp_all add: field_uniform_def run_ops_def FlowField_new_def evolve_def)

lemma getVector_field_uniform: "getVector field_uniform (Fin a) (Fin b) = (Fin (- 1), Fin 0)"
proof -
  have "getAngle field_uniform (Fin a) (Fin b) = Fin pi"
    by (rule getAngle_seed0_pi) (simp_all add: field_uniform_fields)
  then show ?thesis
    using getVector_no_sdf [of field_uniform "Fin a" "Fin b" pi] by (simp add: field_uniform_fields)
qed

text \<open>
  Claim C3, as amended. A particle at \<open>x = 0.01\<close> whose step takes it to \<open>width + 0.01\<close>
  (with \<open>width \<ge> 0.02\<close>) wraps to \<open>x = 0\<close> and keeps \<open>prevX = 0.01\<close>: the segment drawn has
  length 0.01, and \<open>prevX\<close> is not \<open>x\<close>. \<open>prevX\<close> is set to \<open>x\<close> when the wrapped position is
  more than \<open>width / 2\<close> away from the old one, as after a step below 0 from the left
  half, which wraps to \<open>width\<close>. A particle whose step stays inside \<open>[0, width]\<close> and is at
  most \<open>width / 2\<close> long ends with \<open>prevX\<close> at its position before the step.
\<close>

theorem update_wrap_prevX:
  assumes "pos_x p = Fin a" and "getVector ff (pos_x p) (pos_y p) = (Fin vx, vy)"
  shows "(a = 0.01 \<and> a + vx * speed p = width p + 0.01 \<and> 0.02 \<le> width p \<longrightarrow>
            pos_x (update ff p) = Fin 0 \<and> prevX (update ff p) = Fin 0.01)
       \<and> (a + vx * speed p < 0 \<and> 0 \<le> width p \<and> a < width p / 2 \<longrightarrow>
            pos_x (update ff p) = Fin (width p) \<and> prevX (update ff p) = Fin (width p))
       \<and> (0 \<le> a + vx * speed p \<and> a + vx * speed p \<le> width p \<and> \<bar>vx * speed p\<bar> \<le> width p / 2 \<longrightarrow>
            pos_x (update ff p) = Fin (a + vx * speed p) \<and> prevX (update ff p) = Fin a)"
  using assms by (auto simp: update_def Let_def js_gt_def js_sub_def)

text \<open>
  Claim C3 as stated fails: the particle below starts at \<open>x = 0.01\<close>, its step takes it to
  \<open>width + 0.01\<close>, and it ends with \<open>x = 0\<close> and \<open>prevX = 0.01\<close>.
\<close>

theorem update_wrap_counterexample:
  "pos_x particle_right = Fin 0.01
   \<and> js_add (pos_x particle_right)
        (js_mul (fst (getVector field_uniform (pos_x particle_right) (pos_y particle_right))) (Fin (speed particle_right)))
       = Fin (width particle_right + 0.01)
   \<and> pos_x (update field_uniform particle_right) = Fin 0
   \<and> prevX (update field_uniform particle_right) = Fin 0.01
   \<and> prevX (update field_uniform particle_right) \<noteq> pos_x (update field_uniform particle_right)"
  by (simp add: particle_right_def Particle_new_def update_def Let_def getVector_field_uniform js_gt_def js_sub_def)

theorem update_wrap_prevX_witness:
  "(pos_x (update field_uniform particle_right) = Fin 0 \<and> prevX (update field_uniform particle_right) = Fin 0.01)
   \<and> (pos_x (update field_uniform particle_left) = Fin 100 \<and> prevX (update field_uniform particle_left) = Fin 100)
   \<and> (pos_x (update field_uniform particle_mid) = Fin 48 \<and> prevX (update field_uniform particle_mid) = Fin 50)"
proof -
  have r: "pos_x particle_right = Fin 0.01" "getVector field_uniform (pos_x particle_right) (pos_y particle_right) = (Fin (- 1), Fin 0)"
          "speed particle_right = - 100" "width particle_right = 100"
    by (simp_all add: particle_right_def Particle_new_def getVector_field_uniform)
  have l: "pos_x particle_left = Fin 0.01" "getVector field_uniform (pos_x particle_left) (pos_y particle_left) = (Fin (- 1), Fin 0)"
          "speed particle_left = 2" "width particle_left = 100"
    by (simp_all add: particle_left_def Particle_new_def getVector_field_uniform)
  have m: "pos_x particle_mid = Fin 50" "getVector field_uniform (pos_x particle_mid) (pos_y particle_mid) = (Fin (- 1), Fin 0)"
          "speed particle_mid = 2" "width particle_mid = 100"
    by (simp_all add: particle_mid_def Particle_new_def getVector_field_uniform)
  show ?thesis
    using update_wrap_prevX [OF r(1) r(2)] update_wrap_prevX [OF l(1) l(2)]
          update_wrap_prevX [OF m(1) m(2)]
    by (simp add: r l m)
qed


text \<open>
  The guard in general: after every step \<open>prevX\<close> is the new \<open>x\<close> when that is more than
  \<open>width / 2\<close> away from the \<open>x\<close> before the step, and the \<open>x\<close> before the step otherwise.
\<close>

lemma update_prevX_guard:
  "prevX (update ff p)
     = (if js_gt (js_abs (js_sub (pos_x (update ff p)) (pos_x p))) (Fin (width p / 2))
        then pos_x (update ff p) else pos_x p)"
  by (simp add: update_def Let_def)
section \<open>Sampling the distance field and blending\<close>

lemma mask_example:
  "map (\<lambda>i. if bright pixels_example i then 1 else 0 :: nat) [0..<6] = [1, 1, 0, 1, 1, 0]"
  by code_simp

lemma dt_out:
  "distanceTransform2D [Fin 0, Fin 0, Fin 5, Fin 0, Fin 0, Fin 5] 3 2
     = [Fin 0, Fin 0, Fin 1, Fin 0, Fin 0, Fin 1]"
  by code_simp

lemma dt_in:
  "distanceTransform2D [Fin 5, Fin 5, Fin 0, Fin 5, Fin 5, Fin 0] 3 2
     = [Fin 4, Fin 1, Fin 0, Fin 4, Fin 1, Fin 0]"
  by code_simp

lemma upt6: "[0..<6] = [0, 1, 2, 3, 4, 5]"
  by code_simp

lemma cdf_example:
  "computeDistanceField \<lparr> grid = [], gradientX = [], gradientY = [], gridWidth = 3, gridHeight = 2,
       resolution = 4, loaded = False \<rparr> [1, 1, 0, 1, 1, 0]
     = [Fin (- 8), Fin (- 4), Fin 4, Fin (- 8), Fin (- 4), Fin 4]"
proof -
  have t: "map (\<lambda>i. if truthy [1, 1, 0, 1, 1, 0] i then Fin 0 else Fin (real (3 + 2))) [0..<3 * 2]
              = [Fin 0, Fin 0, Fin 5, Fin 0, Fin 0, Fin 5]"
          "map (\<lambda>i. if truthy [1, 1, 0, 1, 1, 0] i then Fin (real (3 + 2)) else Fin 0) [0..<3 * 2]
              = [Fin 5, Fin 5, Fin 0, Fin 5, Fin 5, Fin 0]"
    by (simp_all add: upt6 truthy_def)
  have s4: "sqrt 4 = 2"
    by simp
  show ?thesis
    unfolding computeDistanceField_def Let_def SDF.simps t dt_out dt_in
    by (simp add: upt6 truthy_def f32_at_def s4)
qed

lemma fromSVG_example:
  "fromSVG (SDF_new 4) 12 8 (Some pixels_example)
     = Inr \<lparr> grid = grid_example,
             gradientX = [Fin 1, Fin 1.5, Fin 2, Fin 1, Fin 1.5, Fin 2],
             gradientY = [Fin 0, Fin 0, Fin 0, Fin 0, Fin 0, Fin 0],
             gridWidth = 3, gridHeight = 2, resolution = 4, loaded = True \<rparr>"
proof -
  have r: "resolution (SDF_new 4) = 4"
    by (simp add: SDF_new_def)
  have w: "\<lceil>(12 :: real) / 4\<rceil> = 3" and h: "\<lceil>(8 :: real) / 4\<rceil> = 2"
    by simp_all
  have n: "nat 3 = 3" "nat 2 = 2"
    by simp_all
  have m: "map (\<lambda>i. if bright pixels_example i then 1 else 0 :: nat) [0..<3 * 2] = [1, 1, 0, 1, 1, 0]"
    using mask_example by simp
  have c: "computeDistanceField (SDF_new 4\<lparr> gridWidth := 3, gridHeight := 2 \<rparr>) [1, 1, 0, 1, 1, 0]
           = grid_example"
    using cdf_example by (simp add: SDF_new_def grid_example_def)
  show ?thesis
    unfolding fromSVG_def option.case r w h Let_def n m c
    by (simp add: SDF_new_def computeGradients_def Let_def upt6 f32_at_def js_sub_def grid_example_def)
qed

lemma fromSVG_rejected:
  "fromSVG s cw ch None = Inl LoadFailed"
  "fromSVG (SDF_new 4) 0 8 (Some pixels_example) = Inl ImageDataRefused"
  "fromSVG (SDF_new 4) (- 12) 8 (Some pixels_example) = Inl RangeError"
  "fromSVG (SDF_new 0) 12 8 (Some pixels_example) = Inl ImageDataRefused"
  by (simp_all add: fromSVG_def SDF_new_def)

lemma sdf_example_eq:
  "sdf_example =
     \<lparr> grid = grid_example,
       gradientX = [Fin 1, Fin 1.5, Fin 2, Fin 1, Fin 1.5, Fin 2],
       gradientY = [Fin 0, Fin 0, Fin 0, Fin 0, Fin 0, Fin 0],
       gridWidth = 3, gridHeight = 2, resolution = 4, loaded = True \<rparr>"
  unfolding sdf_example_def fromSVG_example by simp

lemma floor_lt0: "js_lt (js_floor g) (Fin 0) = js_lt g (Fin 0)"
  by (cases g) (simp_all add: floor_less_iff)

lemma floor_ge_nat: "js_ge (js_floor g) (Fin (real n)) = js_ge g (Fin (real n))"
proof (cases g)
  case (Fin a)
  have "(real n \<le> of_int \<lfloor>a\<rfloor>) = (int n \<le> \<lfloor>a\<rfloor>)"
    using of_int_le_iff [of "int n" "\<lfloor>a\<rfloor>", where ?'a = real] by simp
  then have "(real n \<le> of_int \<lfloor>a\<rfloor>) = (real n \<le> a)"
    using le_floor_iff [of "int n" a] by simp
  then show ?thesis using Fin by (simp add: js_ge_def)
qed (simp_all add: js_ge_def)

lemma getGridValue_outside:
  "js_lt gx (Fin 0) \<or> js_ge gx (Fin (real (gridWidth s)))
     \<or> js_lt gy (Fin 0) \<or> js_ge gy (Fin (real (gridHeight s))) \<Longrightarrow>
   getGridValue s g (js_floor gx) (js_floor gy) = PInf"
  by (simp add: getGridValue_def floor_lt0 floor_ge_nat)

lemma weight_cases:
  "js_sub (Fin 1) (js_sub g (js_floor g)) = NaN
   \<or> (\<exists>c. 0 < c \<and> js_sub (Fin 1) (js_sub g (js_floor g)) = Fin c)"
proof (cases g)
  case (Fin a)
  have "0 < 1 - (a - of_int \<lfloor>a\<rfloor>)" by linarith
  then show ?thesis using Fin by (simp add: js_sub_def)
qed (simp_all add: js_sub_def)

lemma not_finite_add: "not_finite a \<Longrightarrow> not_finite (js_add a b)"
  by (cases a; cases b) (simp_all add: not_finite_def)

lemma not_finite_mul_weight:
  "not_finite a \<Longrightarrow> not_finite (js_mul a (js_sub (Fin 1) (js_sub g (js_floor g))))"
  using weight_cases [of g]
  by (cases a) (auto simp: not_finite_def js_signed_inf_def)

lemma sampleBilinear_outside:
  assumes "js_lt gx (Fin 0) \<or> js_ge gx (Fin (real (gridWidth s)))
     \<or> js_lt gy (Fin 0) \<or> js_ge gy (Fin (real (gridHeight s)))"
  shows "not_finite (sampleBilinear s g gx gy)"
proof -
  have "not_finite (getGridValue s g (js_floor gx) (js_floor gy))"
    using getGridValue_outside [OF assms] by (simp add: not_finite_def)
  then show ?thesis
    unfolding sampleBilinear_def Let_def
    by (intro not_finite_add not_finite_mul_weight)
qed

lemma getDistance_outside:
  "loaded s \<Longrightarrow> outsideGrid s x y \<Longrightarrow> not_finite (getDistance s x y)"
  unfolding getDistance_def outsideGrid_def Let_def
  by (simp add: sampleBilinear_outside)

lemma sdfBlend_not_finite:
  "not_finite (getDistance s x y) \<Longrightarrow> sdfBlend ff s x y v = v"
  by (cases v) (auto simp: sdfBlend_def Let_def not_finite_def)

lemma normalize_base:
  assumes "blended ff x y = (js_cos t, js_sin t)"
  shows "getVector ff x y = (js_cos t, js_sin t)"
proof (cases t)
  case (Fin r)
  have "cos r * cos r + sin r * sin r = 1"
    using sin_cos_squared_add3 [of r] by (simp add: algebra_simps)
  then show ?thesis
    using assms Fin by (simp add: getVector_def vec_len_def js_gt_def)
qed (simp_all add: assms getVector_def vec_len_def js_gt_def)

text \<open>
  Outside the grid \<^verbatim>\<open>getGridValue\<close> answers \<^verbatim>\<open>Infinity\<close> for every grid, the two gradient grids
  included. So for every loaded SDF and every position whose grid coordinates fall outside
  the grid, the two samples of \<^verbatim>\<open>getGradient\<close> are \<^verbatim>\<open>Infinity\<close> or \<^verbatim>\<open>NaN\<close>, the length is too, the
  test \<^verbatim>\<open>len < 0.0001\<close> fails and both quotients are \<^verbatim>\<open>NaN\<close>: the gradient is never \<open>(0, 0)\<close> there.
\<close>

lemma not_finite_self_mul: "not_finite a \<Longrightarrow> not_finite (js_mul a a)"
  by (cases a) (simp_all add: not_finite_def js_signed_inf_def)

lemma not_finite_sum: "not_finite a \<Longrightarrow> not_finite b \<Longrightarrow> not_finite (js_add a b)"
  by (rule not_finite_add)

lemma not_finite_sqrt: "not_finite a \<Longrightarrow> not_finite (js_sqrt a)"
  by (cases a) (simp_all add: not_finite_def)

lemma not_finite_div: "not_finite a \<Longrightarrow> not_finite b \<Longrightarrow> js_div a b = NaN"
  by (cases a; cases b) (simp_all add: not_finite_def)

lemma not_finite_not_lt: "not_finite a \<Longrightarrow> \<not> js_lt a (Fin r)"
  by (cases a) (simp_all add: not_finite_def)

lemma getGradient_outside:
  assumes "loaded s" and "outsideGrid s x y"
  shows "getGradient s x y = (NaN, NaN)"
proof -
  define gx where "gx = js_div x (Fin (resolution s))"
  define gy where "gy = js_div y (Fin (resolution s))"
  define gradX where "gradX = sampleBilinear s (gradientX s) gx gy"
  define gradY where "gradY = sampleBilinear s (gradientY s) gx gy"
  define len where "len = js_sqrt (js_add (js_mul gradX gradX) (js_mul gradY gradY))"
  have out: "js_lt gx (Fin 0) \<or> js_ge gx (Fin (real (gridWidth s)))
     \<or> js_lt gy (Fin 0) \<or> js_ge gy (Fin (real (gridHeight s)))"
    using assms(2) by (simp add: outsideGrid_def Let_def gx_def gy_def)
  have X: "not_finite gradX" and Y: "not_finite gradY"
    unfolding gradX_def gradY_def using out by (rule sampleBilinear_outside)+
  have L: "not_finite len"
    unfolding len_def by (intro not_finite_sqrt not_finite_sum not_finite_self_mul X Y)
  have "getGradient s x y
        = (if js_lt len (Fin 0.0001) then (Fin 0, Fin 0) else (js_div gradX len, js_div gradY len))"
    using assms(1) by (simp add: getGradient_def Let_def gx_def gy_def gradX_def gradY_def len_def)
  then show ?thesis
    using not_finite_not_lt [OF L] not_finite_div [OF X L] not_finite_div [OF Y L] by simp
qed

text \<open>
  What does hold outside the grid: the distance is \<^verbatim>\<open>Infinity\<close> or \<^verbatim>\<open>NaN\<close>, never a finite number,
  so the test \<^verbatim>\<open>absDistance < this.sdfFalloff\<close> fails and \<^verbatim>\<open>getVector\<close> returns the unblended
  noise-flow vector, the one it returns with no SDF attached.
\<close>

lemma out_of_grid_unblended:
  assumes "sdf ff = Some s" and "loaded s" and "outsideGrid s x y"
  shows "(getDistance s x y = PInf \<or> getDistance s x y = NaN)
       \<and> getVector ff x y = (js_cos (getAngle ff x y), js_sin (getAngle ff x y))
       \<and> getVector ff x y = getVector (setSDF None ff) x y"
proof -
  have d: "not_finite (getDistance s x y)"
    using assms(2,3) by (rule getDistance_outside)
  have b: "blended ff x y = (js_cos (getAngle ff x y), js_sin (getAngle ff x y))"
    using assms(1) by (simp add: blended_def Let_def sdfBlend_not_finite [OF d])
  have a: "getAngle (setSDF None ff) x y = getAngle ff x y"
    by (rule getAngle_cong) (simp_all add: setSDF_def)
  have b': "blended (setSDF None ff) x y = (js_cos (getAngle ff x y), js_sin (getAngle ff x y))"
    unfolding blended_def a by (simp add: setSDF_def Let_def)
  show ?thesis
    using d normalize_base [OF b] normalize_base [OF b'] by (simp add: not_finite_def)
qed

lemma field_sdf_fields:
  "noise field_sdf = SimplexNoise_new 0" "zOffset field_sdf = - 2000" "octaves field_sdf = 1"
  "scale field_sdf = 1" "sdf field_sdf = Some sdf_example" "sdfStrength field_sdf = 1.389"
  "sdfFalloff field_sdf = 10"
  by (simp_all add: field_sdf_def run_ops_def FlowField_new_def evolve_def setSDF_def
        setSDFStrength_def setSDFFalloff_def)

lemmas sample_defs =
  getDistance_def getGradient_def sampleBilinear_def getGridValue_def valid_index_def
  js_sub_def js_gt_def js_ge_def js_min_def js_signed_inf_def Let_def

lemma sample_outside_aligned:
  "getDistance sdf_example (Fin (- 4)) (Fin 0) = NaN"
  "getGradient sdf_example (Fin (- 4)) (Fin 0) = (NaN, NaN)"
  by (simp_all add: sdf_example_eq grid_example_def sample_defs)

lemma sample_outside_generic:
  "getDistance sdf_example (Fin (- 2)) (Fin 2) = PInf"
  "getGradient sdf_example (Fin (- 2)) (Fin 2) = (NaN, NaN)"
  by (simp_all add: sdf_example_eq grid_example_def sample_defs)

lemma sample_inside:
  "getDistance sdf_example (Fin 0) (Fin 0) = Fin (- 8)"
  "getGradient sdf_example (Fin 0) (Fin 0) = (Fin 1, Fin 0)"
  by (simp_all add: sdf_example_eq grid_example_def sample_defs)

text \<open>
  Claim C2 fails on the code. The claim has \<^verbatim>\<open>getDistance\<close> return \<^verbatim>\<open>Infinity\<close> and \<^verbatim>\<open>getGradient\<close>
  return \<open>(0, 0)\<close> at every position outside the grid of a loaded SDF, as both do when the
  SDF is not loaded. With the SDF that \<^verbatim>\<open>fromSVG\<close> loads from the 3 by 2 example mask at
  resolution 4: left of the grid, at the grid-aligned point \<open>(-4, 0)\<close>, the distance is \<^verbatim>\<open>NaN\<close>
  (\<^verbatim>\<open>Infinity * 0\<close>), not \<^verbatim>\<open>Infinity\<close>; and both there and at \<open>(-2, 2)\<close> the gradient is
  \<open>(NaN, NaN)\<close> (\<^verbatim>\<open>Infinity / Infinity\<close>), not \<open>(0, 0)\<close>.
\<close>

theorem out_of_grid_counterexample:
  "fromSVG (SDF_new 4) 12 8 (Some pixels_example) = Inr sdf_example
   \<and> loaded sdf_example
   \<and> outsideGrid sdf_example (Fin (- 4)) (Fin 0)
   \<and> getDistance sdf_example (Fin (- 4)) (Fin 0) = NaN
   \<and> getDistance sdf_example (Fin (- 4)) (Fin 0) \<noteq> PInf
   \<and> getGradient sdf_example (Fin (- 4)) (Fin 0) = (NaN, NaN)
   \<and> getGradient sdf_example (Fin (- 4)) (Fin 0) \<noteq> (Fin 0, Fin 0)
   \<and> outsideGrid sdf_example (Fin (- 2)) (Fin 2)
   \<and> getDistance sdf_example (Fin (- 2)) (Fin 2) = PInf
   \<and> getGradient sdf_example (Fin (- 2)) (Fin 2) = (NaN, NaN)
   \<and> getGradient sdf_example (Fin (- 2)) (Fin 2) \<noteq> (Fin 0, Fin 0)"
proof -
  have "fromSVG (SDF_new 4) 12 8 (Some pixels_example) = Inr sdf_example"
    unfolding sdf_example_eq by (rule fromSVG_example)
  moreover have "loaded sdf_example" "outsideGrid sdf_example (Fin (- 4)) (Fin 0)"
    "outsideGrid sdf_example (Fin (- 2)) (Fin 2)"
    by (simp_all add: sdf_example_eq outsideGrid_def)
  ultimately show ?thesis
    by (simp add: sample_outside_aligned sample_outside_generic)
qed

lemma out_of_grid_example:
  "getGradient sdf_example (Fin (- 2)) (Fin 2) = (NaN, NaN)
   \<and> (getDistance sdf_example (Fin (- 2)) (Fin 2) = PInf \<or> getDistance sdf_example (Fin (- 2)) (Fin 2) = NaN)
   \<and> getVector field_sdf (Fin (- 2)) (Fin 2)
       = (js_cos (getAngle field_sdf (Fin (- 2)) (Fin 2)), js_sin (getAngle field_sdf (Fin (- 2)) (Fin 2)))
   \<and> getVector field_sdf (Fin (- 2)) (Fin 2) = getVector (setSDF None field_sdf) (Fin (- 2)) (Fin 2)"
proof -
  have l: "loaded sdf_example" "outsideGrid sdf_example (Fin (- 2)) (Fin 2)"
    by (simp_all add: sdf_example_eq outsideGrid_def)
  have "sdf field_sdf = Some sdf_example"
    by (simp add: field_sdf_fields)
  then show ?thesis
    using getGradient_outside [OF l] out_of_grid_unblended [OF _ l, of field_sdf] by blast
qed

lemma no_inf_simps [simp]:
  "no_inf (Fin a)" "no_inf NaN" "\<not> no_inf PInf" "\<not> no_inf NInf"
  by (simp_all add: no_inf_def)

lemma no_inf_neg: "no_inf a \<Longrightarrow> no_inf (js_neg a)"
  by (cases a) simp_all

lemma no_inf_add: "no_inf a \<Longrightarrow> no_inf b \<Longrightarrow> no_inf (js_add a b)"
  by (cases a; cases b) simp_all

lemma no_inf_mul: "no_inf a \<Longrightarrow> no_inf b \<Longrightarrow> no_inf (js_mul a b)"
  by (cases a; cases b) simp_all

lemma no_inf_sub: "no_inf a \<Longrightarrow> no_inf b \<Longrightarrow> no_inf (js_sub a b)"
  by (simp add: js_sub_def no_inf_add no_inf_neg)

lemma no_inf_cos_sin: "no_inf (js_cos a)" "no_inf (js_sin a)"
  by (cases a, simp_all)+

lemma normalized_no_inf:
  "\<not> js_lt (js_sqrt (js_add (js_mul a a) (js_mul b b))) (Fin 0.0001) \<Longrightarrow>
   no_inf (js_div a (js_sqrt (js_add (js_mul a a) (js_mul b b))))
   \<and> no_inf (js_div b (js_sqrt (js_add (js_mul a a) (js_mul b b))))"
  by (cases a; cases b) (auto simp: js_signed_inf_def split: if_splits)

lemma getGradient_no_inf:
  "no_inf (fst (getGradient s x y)) \<and> no_inf (snd (getGradient s x y))"
  unfolding getGradient_def Let_def
  using normalized_no_inf by (simp split: if_splits)

lemma lt_Fin_cases: "js_lt (js_abs d) (Fin r) \<Longrightarrow> \<exists>e. d = Fin e \<and> \<bar>e\<bar> < r"
  by (cases d) simp_all

lemma sdfBlend_no_inf:
  assumes "no_inf vx" and "no_inf vy"
  shows "no_inf (fst (sdfBlend ff s x y (vx, vy))) \<and> no_inf (snd (sdfBlend ff s x y (vx, vy)))"
proof (cases "js_lt (js_abs (getDistance s x y)) (Fin (sdfFalloff ff))")
  case False
  then show ?thesis using assms by (simp add: sdfBlend_def Let_def)
next
  case True
  then obtain e where e: "getDistance s x y = Fin e" "\<bar>e\<bar> < sdfFalloff ff"
    using lt_Fin_cases by blast
  then have f0: "sdfFalloff ff \<noteq> 0" by linarith
  have g: "no_inf (fst (getGradient s x y))" "no_inf (snd (getGradient s x y))"
    using getGradient_no_inf by simp_all
  show ?thesis
    unfolding sdfBlend_def Let_def e
    using assms g f0
    by (auto simp: js_sub_def intro!: no_inf_add no_inf_mul no_inf_neg)
qed

lemma blended_no_inf: "no_inf (fst (blended ff x y)) \<and> no_inf (snd (blended ff x y))"
  unfolding blended_def Let_def
  using sdfBlend_no_inf [OF no_inf_cos_sin]
  by (auto simp: no_inf_cos_sin split: option.splits)

lemma normalize_unit:
  assumes "no_inf a" and "no_inf b"
    and "js_gt (vec_len (a, b)) (Fin 0.0001)"
  shows "\<exists>c d. (js_div a (vec_len (a, b)), js_div b (vec_len (a, b))) = (Fin c, Fin d)
            \<and> c * c + d * d = 1"
proof -
  obtain p q where pq: "a = Fin p" "b = Fin q"
    using assms by (cases a; cases b) (simp_all add: vec_len_def js_gt_def)
  define l where "l = sqrt (p * p + q * q)"
  have "0 \<le> p * p" "0 \<le> q * q"
    by simp_all
  then have nn: "\<not> p * p + q * q < 0"
    by linarith
  have lv: "vec_len (Fin p, Fin q) = Fin l"
    using nn by (simp add: vec_len_def l_def)
  have l: "0.0001 < l"
    using assms(3) unfolding pq lv by (simp add: js_gt_def)
  have ll: "l * l = p * p + q * q"
    unfolding l_def by simp
  have l0: "l * l \<noteq> 0"
    using l by simp
  have "(p / l) * (p / l) + (q / l) * (q / l) = (p * p + q * q) / (l * l)"
    by (simp add: add_divide_distrib)
  also have "\<dots> = 1"
    using l0 unfolding ll [symmetric] by simp
  finally have u: "(p / l) * (p / l) + (q / l) * (q / l) = 1" .
  have "l \<noteq> 0"
    using l by simp
  then have "(js_div a (vec_len (a, b)), js_div b (vec_len (a, b))) = (Fin (p / l), Fin (q / l))"
    unfolding pq lv by simp
  then show ?thesis
    using u by blast
qed

text \<open>
  What \<^verbatim>\<open>getVector\<close> does, for every field, with or without an SDF, and every position: when
  the magnitude of the blended vector exceeds \<open>0.0001\<close> it returns a finite vector of
  magnitude 1; otherwise the guard \<^verbatim>\<open>len > 0.0001\<close> fails and the blended vector is returned
  as it is, not normalised and not replaced by \<open>(0, 0)\<close>.
\<close>

lemma getVector_unit_or_unchanged:
  "(js_gt (vec_len (blended ff x y)) (Fin 0.0001)
      \<and> (\<exists>a b. getVector ff x y = (Fin a, Fin b) \<and> a * a + b * b = 1))
   \<or> (\<not> js_gt (vec_len (blended ff x y)) (Fin 0.0001)
      \<and> getVector ff x y = blended ff x y)"
proof (cases "js_gt (vec_len (blended ff x y)) (Fin 0.0001)")
  case False
  then show ?thesis by (simp add: getVector_def Let_def)
next
  case True
  obtain a b where ab: "blended ff x y = (a, b)"
    by (cases "blended ff x y")
  have "no_inf a" "no_inf b"
    using blended_no_inf [of ff x y] by (simp_all add: ab)
  then have "\<exists>c d. (js_div a (vec_len (a, b)), js_div b (vec_len (a, b))) = (Fin c, Fin d)
            \<and> c * c + d * d = 1"
    using True unfolding ab by (rule normalize_unit)
  then show ?thesis
    using True by (simp add: getVector_def Let_def ab)
qed

lemma blended_field_sdf: "blended field_sdf (Fin 0) (Fin 0) = (Fin 0.00008, Fin 0)"
proof -
  have a: "getAngle field_sdf (Fin 0) (Fin 0) = Fin pi"
    by (rule getAngle_seed0_pi) (simp_all add: field_sdf_fields)
  have l: "isLoaded sdf_example"
    by (simp add: isLoaded_def sdf_example_eq)
  show ?thesis
    unfolding blended_def Let_def a
    by (simp add: field_sdf_fields l sdfBlend_def Let_def sample_inside js_neq_def js_sub_def)
qed

lemma vec_len_small: "vec_len (Fin 0.00008, Fin 0) = Fin 0.00008"
proof -
  have "sqrt (0.00008 * 0.00008) = (0.00008 :: real)"
    by (rule real_sqrt_unique) (simp_all add: power2_eq_square)
  then show ?thesis
    by (simp add: vec_len_def)
qed

text \<open>
  Claim C1 fails on the code, which also breaks the promise of its own comment (\<^verbatim>\<open>Returns a
  unit vector pointing in the flow direction\<close>). In the example field (seed 0, evolved by
  \<open>-2000\<close>, the example SDF attached with strength 1.389 and falloff 10), at the origin, inside
  the shape, the base vector \<open>(-1, 0)\<close> is blended with the gradient \<open>(1, 0)\<close> at influence
  \<open>0.50004\<close>; the blend \<open>(0.00008, 0)\<close> has a magnitude below \<open>0.0001\<close> and is returned as it is:
  neither \<open>(0, 0)\<close> nor of magnitude 1 within \<open>0.001\<close>.
\<close>

theorem getVector_counterexample:
  "getVector field_sdf (Fin 0) (Fin 0) = (Fin 0.00008, Fin 0)
   \<and> vec_len (blended field_sdf (Fin 0) (Fin 0)) = Fin 0.00008
   \<and> \<not> spec_unit_or_zero (getVector field_sdf (Fin 0) (Fin 0))"
proof -
  have g: "getVector field_sdf (Fin 0) (Fin 0) = (Fin 0.00008, Fin 0)"
    unfolding getVector_def Let_def blended_field_sdf vec_len_small
    by (simp add: js_gt_def)
  have "sqrt (0.00008 * 0.00008) = (0.00008 :: real)"
    by (rule real_sqrt_unique) (simp_all add: power2_eq_square)
  then have "\<not> spec_unit_or_zero (Fin 0.00008, Fin 0)"
    by (simp add: spec_unit_or_zero_def)
  then show ?thesis
    unfolding g blended_field_sdf vec_len_small by simp
qed


section \<open>The distance transform\<close>

text \<open>
  The horizontal pass. A forward and a backward scan of one row replace every cell by the
  least of \<open>d[c'] + |c - c'|\<close> over the cells \<open>c'\<close> of the row.
\<close>

lemma extract_fold:
  assumes "length f = h"
  shows "m \<le> h \<Longrightarrow>
         length (fold (\<lambda>y f'. f32_put f' (int y) (g y)) [0..<m] f) = h
         \<and> (\<forall>y<m. fold (\<lambda>y f'. f32_put f' (int y) (g y)) [0..<m] f ! y = g y)"
proof (induction m)
  case 0
  then show ?case using assms by simp
next
  case (Suc m)
  let ?F = "fold (\<lambda>y f'. f32_put f' (int y) (g y)) [0..<m] f"
  have ih: "length ?F = h" "\<forall>y<m. ?F ! y = g y"
    using Suc by simp_all
  have eq: "fold (\<lambda>y f'. f32_put f' (int y) (g y)) [0..<Suc m] f = ?F[m := g m]"
    using ih(1) Suc.prems by (simp add: f32_put_def)
  show ?case
    unfolding eq using ih Suc.prems by (auto simp: nth_list_update less_Suc_eq)
qed

lemma int_sq_ge1: "m \<noteq> (0 :: int) \<Longrightarrow> 1 \<le> (of_int m :: real) * of_int m"
proof -
  assume "m \<noteq> 0"
  then have "1 \<le> \<bar>m\<bar>"
    by linarith
  then have "(1 :: real) \<le> \<bar>of_int m\<bar>"
    by (metis of_int_abs of_int_1_le_iff)
  then have "1 * 1 \<le> \<bar>of_int m :: real\<bar> * \<bar>of_int m\<bar>"
    by (intro mult_mono) simp_all
  then show ?thesis
    by (simp only: abs_mult_self_eq mult_1)
qed

lemma all_fin_at: "all_fin d \<Longrightarrow> i < length d \<Longrightarrow> d ! i = Fin (cell d i)"
  by (auto simp: all_fin_def cell_def)

lemma all_fin_update: "all_fin d \<Longrightarrow> all_fin (d[i := Fin r])"
  unfolding all_fin_def
proof (intro allI impI)
  fix j
  assume a: "\<forall>i<length d. \<exists>r. d ! i = Fin r" and j: "j < length (d[i := Fin r])"
  show "\<exists>ra. d[i := Fin r] ! j = Fin ra"
    using a j by (cases "j = i") simp_all
qed

lemma relax_val:
  assumes "all_fin d" and "idx < length d" and "nb < length d"
  shows "relax d (int idx) (int nb) = d[idx := Fin (min (cell d idx) (cell d nb + 1))]"
proof -
  have a: "f32_at d (int idx) = Fin (cell d idx)" "f32_at d (int nb) = Fin (cell d nb)"
    using assms by (simp_all add: f32_at_def all_fin_at)
  show ?thesis
  proof (cases "cell d nb + 1 < cell d idx")
    case True
    then show ?thesis
      using assms(2) by (simp add: relax_def a js_gt_def f32_put_def min_def)
  next
    case False
    then have "d[idx := Fin (min (cell d idx) (cell d nb + 1))] = d"
      using all_fin_at [OF assms(1,2)] list_update_id [of d idx] by (simp add: min_def)
    then show ?thesis
      using False by (simp add: relax_def a js_gt_def)
  qed
qed



lemma is_min_step:
  assumes "is_min A f m" and "\<forall>c<m. g c = f c + 1"
  shows "is_min (min (g m) (A + 1)) g (Suc m)"
proof -
  have lo: "\<forall>i<m. A \<le> f i" and at: "\<exists>i<m. A = f i"
    using assms(1) by (simp_all add: is_min_def)
  have "min (g m) (A + 1) \<le> g i" if "i < Suc m" for i
  proof (cases "i = m")
    case True
    then show ?thesis by simp
  next
    case False
    then have "i < m" using that by simp
    then have "A + 1 \<le> g i" using lo assms(2) by simp
    then show ?thesis by simp
  qed
  moreover have "\<exists>i<Suc m. min (g m) (A + 1) = g i"
  proof (cases "g m \<le> A + 1")
    case True
    then show ?thesis by (intro exI [of _ m]) (simp add: min_def)
  next
    case False
    obtain i where "i < m" "A = f i" using at by blast
    then have "min (g m) (A + 1) = g i" "i < Suc m"
      using False assms(2) by (simp_all add: min_def)
    then show ?thesis by blast
  qed
  ultimately show ?thesis by (simp add: is_min_def)
qed

lemma is_min_back:
  assumes "is_min F g (Suc n)" and "is_min B f w" and "Suc n \<le> w"
    and "\<forall>c<w. c \<le> n \<longrightarrow> f c = g c + 1" and "\<forall>c<w. n < c \<longrightarrow> g c = f c + 1"
  shows "is_min (min F (B + 1)) g w"
proof -
  have Flo: "\<forall>i<Suc n. F \<le> g i" and Fat: "\<exists>i<Suc n. F = g i"
    using assms(1) by (simp_all add: is_min_def)
  have Blo: "\<forall>i<w. B \<le> f i" and Bat: "\<exists>i<w. B = f i"
    using assms(2) by (simp_all add: is_min_def)
  have "min F (B + 1) \<le> g i" if "i < w" for i
  proof (cases "i \<le> n")
    case True
    then have "F \<le> g i" using Flo by simp
    then show ?thesis by simp
  next
    case False
    then have "g i = f i + 1" using assms(5) that by simp
    moreover have "B \<le> f i" using Blo that by simp
    ultimately show ?thesis by simp
  qed
  moreover have "\<exists>i<w. min F (B + 1) = g i"
  proof (cases "F \<le> B + 1")
    case True
    obtain i where "i < Suc n" "F = g i" using Fat by blast
    then have "i < w" "min F (B + 1) = g i" using True assms(3) by (simp_all add: min_def)
    then show ?thesis by blast
  next
    case False
    obtain i where i: "i < w" "B = f i" using Bat by blast
    have "n < i"
    proof (rule ccontr)
      assume "\<not> n < i"
      then have "i \<le> n" by simp
      then have "f i = g i + 1" "F \<le> g i" using assms(4) i(1) Flo by simp_all
      then show False using False i(2) by simp
    qed
    then have "g i = f i + 1" using assms(5) i(1) by simp
    then have "min F (B + 1) = g i" using False i(2) by (simp add: min_def)
    then show ?thesis using i(1) by blast
  qed
  ultimately show ?thesis by (simp add: is_min_def)
qed

lemma forward_scan:
  assumes fin: "all_fin d0" and len: "base + w \<le> length d0"
  shows "1 \<le> m \<Longrightarrow> m \<le> w \<Longrightarrow>
    (let d = fold (\<lambda>x d'. relax d' (int (base + x)) (int (base + x) - 1)) [1..<m] d0
     in length d = length d0 \<and> all_fin d
        \<and> (\<forall>i<length d0. i < base \<or> base + m \<le> i \<longrightarrow> d ! i = d0 ! i)
        \<and> (\<forall>c<m. is_min (cell d (base + c))
                     (\<lambda>c'. cell d0 (base + c') + \<bar>real c - real c'\<bar>) (Suc c)))"
proof (induction m rule: nat_induct_at_least)
  case base
  have "is_min (cell d0 (base + 0)) (\<lambda>c'. cell d0 (base + c') + \<bar>real 0 - real c'\<bar>) (Suc 0)"
    by (simp add: is_min_def)
  then show ?case
    using fin by (simp add: Let_def)
next
  case (Suc m)
  define d where "d = fold (\<lambda>x d'. relax d' (int (base + x)) (int (base + x) - 1)) [1..<m] d0"
  have ih: "length d = length d0" "all_fin d"
    "\<forall>i<length d0. i < base \<or> base + m \<le> i \<longrightarrow> d ! i = d0 ! i"
    "\<forall>c<m. is_min (cell d (base + c)) (\<lambda>c'. cell d0 (base + c') + \<bar>real c - real c'\<bar>) (Suc c)"
    using Suc unfolding d_def Let_def by simp_all
  define nv where "nv = min (cell d (base + m)) (cell d (base + m - 1) + 1)"
  define d' where "d' = d[base + m := Fin nv]"
  have idx: "base + m < length d" "base + m - 1 < length d"
    using Suc.prems len ih(1) by simp_all
  have e: "int (base + m) - 1 = int (base + m - 1)"
    using Suc.hyps by linarith
  have "relax d (int (base + m)) (int (base + m - 1)) = d'"
    unfolding d'_def nv_def by (rule relax_val [OF ih(2) idx])
  then have r: "relax d (int (base + m)) (int (base + m) - 1) = d'"
    by (simp only: e)
  have "[1..<Suc m] = [1..<m] @ [m]"
    using Suc.hyps by simp
  then have F: "fold (\<lambda>x d'. relax d' (int (base + x)) (int (base + x) - 1)) [1..<Suc m] d0 = d'"
    by (simp only: fold_append comp_apply fold.simps id_apply d_def [symmetric] r)
  have l: "length d' = length d0" and f: "all_fin d'"
    using ih(1,2) by (simp_all add: d'_def all_fin_update)
  have u: "\<forall>i<length d0. i < base \<or> base + Suc m \<le> i \<longrightarrow> d' ! i = d0 ! i"
    using ih(3) by (simp add: d'_def)
  have "cell d' (base + m) = nv"
    using idx(1) by (simp add: cell_def d'_def)
  moreover have "cell d (base + m) = cell d0 (base + m)"
    using ih(3) idx(1) ih(1) by (simp add: cell_def)
  moreover have "is_min (min (cell d0 (base + m) + \<bar>real m - real m\<bar>) (cell d (base + (m - 1)) + 1))
      (\<lambda>c'. cell d0 (base + c') + \<bar>real m - real c'\<bar>) (Suc m)"
  proof (rule is_min_step)
    have "m - 1 < m" "Suc (m - 1) = m"
      using Suc.hyps by simp_all
    then show "is_min (cell d (base + (m - 1)))
        (\<lambda>c'. cell d0 (base + c') + \<bar>real (m - 1) - real c'\<bar>) m"
      using ih(4) [rule_format, of "m - 1"] by simp
    have m1: "real (m - 1) = real m - 1"
      using Suc.hyps by (simp add: of_nat_diff)
    show "\<forall>c<m. cell d0 (base + c) + \<bar>real m - real c\<bar>
                = cell d0 (base + c) + \<bar>real (m - 1) - real c\<bar> + 1"
    proof (intro allI impI)
      fix c
      assume "c < m"
      then have "real c + 1 \<le> real m"
        by linarith
      then show "cell d0 (base + c) + \<bar>real m - real c\<bar>
                = cell d0 (base + c) + \<bar>real (m - 1) - real c\<bar> + 1"
        unfolding m1 by linarith
    qed
  qed
  moreover have "base + (m - 1) = base + m - 1"
    using Suc.hyps by simp
  ultimately have new: "is_min (cell d' (base + m))
      (\<lambda>c'. cell d0 (base + c') + \<bar>real m - real c'\<bar>) (Suc m)"
    by (simp add: nv_def)
  have old: "is_min (cell d' (base + c)) (\<lambda>c'. cell d0 (base + c') + \<bar>real c - real c'\<bar>) (Suc c)"
    if "c < m" for c
  proof -
    have "cell d' (base + c) = cell d (base + c)"
      using that by (simp add: cell_def d'_def)
    then show ?thesis using ih(4) that by simp
  qed
  have "\<forall>c<Suc m. is_min (cell d' (base + c))
      (\<lambda>c'. cell d0 (base + c') + \<bar>real c - real c'\<bar>) (Suc c)"
    using new old by (auto simp: less_Suc_eq)
  then show ?case
    unfolding F Let_def using l f u by simp
qed



lemma backward_scan:
  assumes fin: "all_fin d1" and len: "base + w \<le> length d1" and w: "0 < w"
    and fwd: "\<forall>c<w. is_min (cell d1 (base + c))
                      (\<lambda>c'. G c' + \<bar>real c - real c'\<bar>) (Suc c)"
  shows "j \<le> w - 1 \<Longrightarrow>
    (let d = fold (\<lambda>x d'. relax d' (int (base + x)) (int (base + x) + 1)) (rev [j..<w - 1]) d1
     in length d = length d1 \<and> all_fin d
        \<and> (\<forall>i<length d1. i < base + j \<or> base + w \<le> i \<longrightarrow> d ! i = d1 ! i)
        \<and> (\<forall>c. j \<le> c \<and> c < w \<longrightarrow>
              is_min (cell d (base + c)) (\<lambda>c'. G c' + \<bar>real c - real c'\<bar>) w))"
proof (induction j rule: inc_induct)
  case base
  have "Suc (w - 1) = w" using w by simp
  then have "is_min (cell d1 (base + (w - 1))) (\<lambda>c'. G c' + \<bar>real (w - 1) - real c'\<bar>) w"
    using fwd [rule_format, of "w - 1"] w by simp
  moreover have "c = w - 1" if "w - 1 \<le> c" "c < w" for c
    using that by simp
  ultimately show ?case
    using fin by (auto simp: Let_def)
next
  case (step n)
  define d where "d = fold (\<lambda>x d'. relax d' (int (base + x)) (int (base + x) + 1)) (rev [Suc n..<w - 1]) d1"
  have ih: "length d = length d1" "all_fin d"
    "\<forall>i<length d1. i < base + Suc n \<or> base + w \<le> i \<longrightarrow> d ! i = d1 ! i"
    "\<forall>c. Suc n \<le> c \<and> c < w \<longrightarrow> is_min (cell d (base + c)) (\<lambda>c'. G c' + \<bar>real c - real c'\<bar>) w"
    using step.IH unfolding d_def Let_def by simp_all
  define nv where "nv = min (cell d (base + n)) (cell d (base + n + 1) + 1)"
  define d' where "d' = d[base + n := Fin nv]"
  have nw: "Suc n < w" using step.hyps by simp
  have idx: "base + n < length d" "base + n + 1 < length d"
    using nw len ih(1) by simp_all
  have e: "int (base + n) + 1 = int (base + n + 1)"
    by simp
  have "relax d (int (base + n)) (int (base + n + 1)) = d'"
    unfolding d'_def nv_def by (rule relax_val [OF ih(2) idx])
  then have r: "relax d (int (base + n)) (int (base + n) + 1) = d'"
    by (simp only: e)
  have "rev [n..<w - 1] = rev [Suc n..<w - 1] @ [n]"
    using step.hyps by (simp add: upt_conv_Cons)
  then have F: "fold (\<lambda>x d'. relax d' (int (base + x)) (int (base + x) + 1)) (rev [n..<w - 1]) d1 = d'"
    by (simp only: fold_append comp_apply fold.simps id_apply d_def [symmetric] r)
  have l: "length d' = length d1" and f: "all_fin d'"
    using ih(1,2) by (simp_all add: d'_def all_fin_update)
  have u: "\<forall>i<length d1. i < base + n \<or> base + w \<le> i \<longrightarrow> d' ! i = d1 ! i"
    using ih(3) nw by (simp add: d'_def)
  have cn: "cell d' (base + n) = nv"
    using idx(1) by (simp add: cell_def d'_def)
  have "cell d (base + n) = cell d1 (base + n)"
    using ih(3) idx(1) ih(1) by (simp add: cell_def)
  then have Fn: "is_min (cell d (base + n)) (\<lambda>c'. G c' + \<bar>real n - real c'\<bar>) (Suc n)"
    using fwd [rule_format, of n] nw by simp
  have Bn: "is_min (cell d (base + Suc n)) (\<lambda>c'. G c' + \<bar>real (Suc n) - real c'\<bar>) w"
    using ih(4) [rule_format, of "Suc n"] nw by blast
  have "is_min (min (cell d (base + n)) (cell d (base + Suc n) + 1))
      (\<lambda>c'. G c' + \<bar>real n - real c'\<bar>) w"
  proof (rule is_min_back [OF Fn Bn])
    show "Suc n \<le> w" using nw by simp
    show "\<forall>c<w. c \<le> n \<longrightarrow> G c + \<bar>real (Suc n) - real c\<bar> = G c + \<bar>real n - real c\<bar> + 1"
    proof (intro allI impI)
      fix c assume "c \<le> n"
      then have "real c \<le> real n" by simp
      then show "G c + \<bar>real (Suc n) - real c\<bar> = G c + \<bar>real n - real c\<bar> + 1"
        by simp
    qed
    show "\<forall>c<w. n < c \<longrightarrow> G c + \<bar>real n - real c\<bar> = G c + \<bar>real (Suc n) - real c\<bar> + 1"
    proof (intro allI impI)
      fix c assume "n < c"
      then have "real n + 1 \<le> real c" by linarith
      then show "G c + \<bar>real n - real c\<bar> = G c + \<bar>real (Suc n) - real c\<bar> + 1"
        by simp
    qed
  qed
  then have new: "is_min (cell d' (base + n)) (\<lambda>c'. G c' + \<bar>real n - real c'\<bar>) w"
    by (simp add: cn nv_def)
  have old: "is_min (cell d' (base + c)) (\<lambda>c'. G c' + \<bar>real c - real c'\<bar>) w"
    if "Suc n \<le> c" "c < w" for c
  proof -
    have "cell d' (base + c) = cell d (base + c)"
      using that by (simp add: cell_def d'_def)
    then show ?thesis using ih(4) that by simp
  qed
  have "\<forall>c. n \<le> c \<and> c < w \<longrightarrow> is_min (cell d' (base + c)) (\<lambda>c'. G c' + \<bar>real c - real c'\<bar>) w"
    using new old by (metis Suc_leI le_neq_implies_less)
  then show ?case
    unfolding F Let_def using l f u by simp
qed



lemma is_min_cong: "(\<And>i. i < n \<Longrightarrow> f i = g i) \<Longrightarrow> is_min v f n = is_min v g n"
  unfolding is_min_def by (intro arg_cong2 [where f = "(\<and>)"] all_cong ex_cong) simp_all

lemma row_pass:
  assumes fin: "all_fin d0" and len: "base + w \<le> length d0" and w: "0 < w"
  shows
    "(let d = fold (\<lambda>x d'. relax d' (int (base + x)) (int (base + x) + 1)) (rev [0..<w - 1])
                (fold (\<lambda>x d'. relax d' (int (base + x)) (int (base + x) - 1)) [1..<w] d0)
     in length d = length d0 \<and> all_fin d
        \<and> (\<forall>i<length d0. i < base \<or> base + w \<le> i \<longrightarrow> d ! i = d0 ! i)
        \<and> (\<forall>c<w. is_min (cell d (base + c))
                     (\<lambda>c'. cell d0 (base + c') + \<bar>real c - real c'\<bar>) w))"
proof -
  define d1 where "d1 = fold (\<lambda>x d'. relax d' (int (base + x)) (int (base + x) - 1)) [1..<w] d0"
  define d where "d = fold (\<lambda>x d'. relax d' (int (base + x)) (int (base + x) + 1)) (rev [0..<w - 1]) d1"
  have f: "length d1 = length d0" "all_fin d1"
    "\<forall>i<length d0. i < base \<or> base + w \<le> i \<longrightarrow> d1 ! i = d0 ! i"
    "\<forall>c<w. is_min (cell d1 (base + c)) (\<lambda>c'. cell d0 (base + c') + \<bar>real c - real c'\<bar>) (Suc c)"
    using forward_scan [OF fin len, of w] w unfolding d1_def Let_def by simp_all
  have len1: "base + w \<le> length d1"
    using len f(1) by simp
  have b: "length d = length d1" "all_fin d"
    "\<forall>i<length d1. i < base + 0 \<or> base + w \<le> i \<longrightarrow> d ! i = d1 ! i"
    "\<forall>c. 0 \<le> c \<and> c < w \<longrightarrow>
        is_min (cell d (base + c)) (\<lambda>c'. cell d0 (base + c') + \<bar>real c - real c'\<bar>) w"
    using backward_scan [OF f(2) len1 w f(4), of 0] unfolding d_def Let_def by simp_all
  have "\<forall>i<length d0. i < base \<or> base + w \<le> i \<longrightarrow> d ! i = d0 ! i"
    using b(3) f(1,3) by simp
  then show ?thesis
    unfolding Let_def d1_def [symmetric] d_def [symmetric] using b(1,2,4) f(1) by simp
qed

lemma row_index: "y < m \<Longrightarrow> c < w \<Longrightarrow> y * w + c < m * (w :: nat)"
proof -
  assume y: "y < m" and c: "c < w"
  have "y * w + c < y * w + w" using c by simp
  also have "\<dots> = Suc y * w" by simp
  also have "\<dots> \<le> m * w" using y by (intro mult_le_mono1) simp
  finally show ?thesis .
qed

lemma horizontalPass_rows:
  assumes fin: "all_fin d0" and len: "length d0 = w * h" and w: "0 < w"
  shows "m \<le> h \<Longrightarrow>
    (let d = fold (\<lambda>y d.
             fold (\<lambda>x d'. relax d' (int (y * w + x)) (int (y * w + x) + 1)) (rev [0..<w - 1])
               (fold (\<lambda>x d'. relax d' (int (y * w + x)) (int (y * w + x) - 1)) [1..<w] d))
          [0..<m] d0
     in length d = w * h \<and> all_fin d
        \<and> (\<forall>i<w * h. m * w \<le> i \<longrightarrow> d ! i = d0 ! i)
        \<and> (\<forall>y<m. \<forall>c<w. is_min (cell d (y * w + c))
                     (\<lambda>c'. cell d0 (y * w + c') + \<bar>real c - real c'\<bar>) w))"
proof (induction m)
  case 0
  then show ?case using fin len by (simp add: Let_def)
next
  case (Suc m)
  define row where "row = (\<lambda>y d.
             fold (\<lambda>x d'. relax d' (int (y * w + x)) (int (y * w + x) + 1)) (rev [0..<w - 1])
               (fold (\<lambda>x d'. relax d' (int (y * w + x)) (int (y * w + x) - 1)) [1..<w] d))"
  define d where "d = fold row [0..<m] d0"
  define d' where "d' = row m d"
  have ih: "length d = w * h" "all_fin d" "\<forall>i<w * h. m * w \<le> i \<longrightarrow> d ! i = d0 ! i"
    "\<forall>y<m. \<forall>c<w. is_min (cell d (y * w + c)) (\<lambda>c'. cell d0 (y * w + c') + \<bar>real c - real c'\<bar>) w"
    using Suc unfolding d_def row_def Let_def by simp_all
  have mh: "m < h" using Suc.prems by simp
  have "m * w + w = Suc m * w" by simp
  also have "\<dots> \<le> h * w" using mh by (intro mult_le_mono1) simp
  finally have len': "m * w + w \<le> length d"
    using ih(1) by (simp add: mult.commute)
  have r: "length d' = length d" "all_fin d'"
    "\<forall>i<length d. i < m * w \<or> m * w + w \<le> i \<longrightarrow> d' ! i = d ! i"
    "\<forall>c<w. is_min (cell d' (m * w + c)) (\<lambda>c'. cell d (m * w + c') + \<bar>real c - real c'\<bar>) w"
    using row_pass [OF ih(2) len' w] unfolding d'_def row_def Let_def by simp_all
  have F: "fold row [0..<Suc m] d0 = d'"
    by (simp add: d_def d'_def)
  have u: "\<forall>i<w * h. Suc m * w \<le> i \<longrightarrow> d' ! i = d0 ! i"
    using r(3) ih(1,3) by simp
  have same: "cell d (m * w + c') = cell d0 (m * w + c')" if "c' < w" for c'
  proof -
    have "m * w + c' < h * w" using mh that by (rule row_index)
    then show ?thesis using ih(3) by (simp add: cell_def mult.commute)
  qed
  have new: "is_min (cell d' (m * w + c)) (\<lambda>c'. cell d0 (m * w + c') + \<bar>real c - real c'\<bar>) w"
    if "c < w" for c
  proof -
    have "is_min (cell d' (m * w + c)) (\<lambda>c'. cell d (m * w + c') + \<bar>real c - real c'\<bar>) w"
      using r(4) that by simp
    moreover have "is_min (cell d' (m * w + c)) (\<lambda>c'. cell d (m * w + c') + \<bar>real c - real c'\<bar>) w
        = is_min (cell d' (m * w + c)) (\<lambda>c'. cell d0 (m * w + c') + \<bar>real c - real c'\<bar>) w"
      by (rule is_min_cong) (simp add: same)
    ultimately show ?thesis by simp
  qed
  have old: "is_min (cell d' (y * w + c)) (\<lambda>c'. cell d0 (y * w + c') + \<bar>real c - real c'\<bar>) w"
    if "y < m" "c < w" for y c
  proof -
    have lt: "y * w + c < m * w" using that by (rule row_index)
    also have "m * w \<le> h * w" using mh by (intro mult_le_mono1) simp
    finally have "y * w + c < length d" using ih(1) by (simp add: mult.commute)
    then have "cell d' (y * w + c) = cell d (y * w + c)"
      using r(3) lt by (simp add: cell_def)
    then show ?thesis using ih(4) that by simp
  qed
  have "\<forall>y<Suc m. \<forall>c<w. is_min (cell d' (y * w + c))
      (\<lambda>c'. cell d0 (y * w + c') + \<bar>real c - real c'\<bar>) w"
    using new old by (auto simp: less_Suc_eq)
  then show ?case
    unfolding row_def [symmetric] F Let_def using r(1,2) ih(1) u by simp
qed

lemma horizontalPass_min:
  assumes "all_fin d0" and "length d0 = w * h" and "0 < w"
  shows "length (horizontalPass w h d0) = w * h" and "all_fin (horizontalPass w h d0)"
    and "y < h \<Longrightarrow> c < w \<Longrightarrow>
         is_min (cell (horizontalPass w h d0) (y * w + c))
           (\<lambda>c'. cell d0 (y * w + c') + \<bar>real c - real c'\<bar>) w"
  using horizontalPass_rows [OF assms, of h] unfolding horizontalPass_def Let_def by simp_all



text \<open>
  The vertical pass. Two parabolas \<open>p < q\<close> of the same width cross once, at \<open>sep p q\<close>:
  \<open>p\<close> is the lower one to the left of it and \<open>q\<close> to the right.
\<close>

lemma parab_diff:
  "parab fr q t - parab fr p t
     = ((fr q + real (q * q)) - (fr p + real (p * p))) - t * (2 * real q - 2 * real p)"
  by (simp add: parab_def algebra_simps)

lemma sep_le:
  assumes "p < q"
  shows "(parab fr p t \<le> parab fr q t) = (t \<le> sep fr p q)"
    and "(parab fr q t \<le> parab fr p t) = (sep fr p q \<le> t)"
proof -
  define N where "N = (fr q + real (q * q)) - (fr p + real (p * p))"
  define D where "D = 2 * real q - 2 * real p"
  have D: "0 < D" using assms by (simp add: D_def)
  have d: "parab fr q t - parab fr p t = N - t * D"
    unfolding N_def D_def by (rule parab_diff)
  have s: "sep fr p q = N / D"
    by (simp add: sep_def N_def D_def)
  have "(parab fr p t \<le> parab fr q t) = (t * D \<le> N)"
    using d by linarith
  also have "\<dots> = (t \<le> N / D)"
    using D by (simp add: pos_le_divide_eq)
  finally show "(parab fr p t \<le> parab fr q t) = (t \<le> sep fr p q)"
    by (simp add: s)
  have "(parab fr q t \<le> parab fr p t) = (N \<le> t * D)"
    using d by linarith
  also have "\<dots> = (N / D \<le> t)"
    using D by (simp add: pos_divide_le_eq)
  finally show "(parab fr q t \<le> parab fr p t) = (sep fr p q \<le> t)"
    by (simp add: s)
qed

lemma sep_lower:
  assumes "p < q" and "0 \<le> fr q" and "fr p \<le> b" and "0 \<le> b"
  shows "- b < sep fr p q"
proof -
  define D where "D = 2 * real q - 2 * real p"
  have D: "2 \<le> D"
    using assms(1) unfolding D_def by linarith
  have "real (p * p) \<le> real (q * q)"
    using assms(1) by (intro of_nat_mono mult_le_mono) simp_all
  then have N: "- b \<le> (fr q + real (q * q)) - (fr p + real (p * p))"
    using assms(2,3) by linarith
  have "- b * D \<le> - b * 2"
    using D assms(4) by (intro mult_left_mono_neg) simp_all
  then have "- b * D < (fr q + real (q * q)) - (fr p + real (p * p)) \<or> b = 0"
    using N assms(4) by linarith
  moreover have "- b * D < (fr q + real (q * q)) - (fr p + real (p * p))" if "b = 0"
  proof -
    have "real (p * p) < real (q * q)"
      using assms(1) by (intro of_nat_less_iff [THEN iffD2] mult_strict_mono') simp_all
    then show ?thesis using that assms(2,3) by simp
  qed
  ultimately have "- b * D < (fr q + real (q * q)) - (fr p + real (p * p))"
    by blast
  then show ?thesis
    using D unfolding sep_def D_def [symmetric] by (simp add: pos_less_divide_eq)
qed

lemma intersect_val:
  assumes f: "length f = h" "\<forall>p<h. f ! p = Fin (fr p)"
    and k: "0 \<le> k" "nat k < length v" and vk: "0 \<le> v ! nat k" "v ! nat k < int q" and q: "q < h"
  shows "intersect f v q k = Fin (sep fr (nat (v ! nat k)) q)"
proof -
  define p where "p = nat (v ! nat k)"
  have p: "v ! nat k = int p" "p < q" "p < h"
    using vk q by (simp_all add: p_def)
  have i: "i32_at v k = Some (int p)"
    using k p(1) by (simp add: i32_at_def)
  have fq: "f32_at f (int q) = Fin (fr q)" and fp: "f32_at f (int p) = Fin (fr p)"
    using f q p(3) by (simp_all add: f32_at_def)
  have ne: "(of_int (2 * int q - 2 * int p) :: real) \<noteq> 0"
    using p(2) by simp
  have "intersect f v q k
        = js_div (Fin ((fr q + real (q * q)) - (fr p + of_int (int p * int p))))
                 (Fin (of_int (2 * int q - 2 * int p)))"
    unfolding intersect_def i option.case fq fp by (simp add: js_sub_def)
  also have "\<dots> = Fin (((fr q + real (q * q)) - (fr p + of_int (int p * int p)))
                       / of_int (2 * int q - 2 * int p))"
    using ne by simp
  also have "\<dots> = Fin (sep fr p q)"
    by (simp add: sep_def)
  finally show ?thesis by (simp add: p_def)
qed



lemma pop_envelope:
  assumes f: "length f = h" "\<forall>p<h. f ! p = Fin (fr p)"
    and q: "q < h" and fb: "\<forall>p<h. 0 \<le> fr p \<and> fr p \<le> b" and b: "0 \<le> b"
    and env: "envelope fr b h q (K, v, z)"
  shows "0 \<le> k \<Longrightarrow> k \<le> K \<Longrightarrow> s = Fin (sep fr (nat (v ! nat k)) q) \<Longrightarrow>
         (k < K \<longrightarrow> (\<forall>t. cell z (nat k + 1) \<le> t \<longrightarrow> (\<forall>p<q. parab fr q t \<le> parab fr p t))) \<Longrightarrow>
         (case pop f v z q k s of (k1, s1) \<Rightarrow>
            0 \<le> k1 \<and> k1 \<le> k \<and> s1 = Fin (sep fr (nat (v ! nat k1)) q)
            \<and> cell z (nat k1) < sep fr (nat (v ! nat k1)) q
            \<and> (k1 < K \<longrightarrow> (\<forall>t. cell z (nat k1 + 1) \<le> t \<longrightarrow> (\<forall>p<q. parab fr q t \<le> parab fr p t))))"
proof (induction "nat k" arbitrary: k s)
  case 0
  then have k0: "k = 0" by simp
  have E: "0 \<le> K" "K < int q" "length v = h" "length z = h + 1"
    "\<forall>i \<le> nat K. 0 \<le> v ! i \<and> v ! i < int q" "z ! 0 = Fin (- b)"
    using env by (simp_all add: envelope_def)
  have v0: "nat (v ! 0) < q" "nat (v ! 0) < h"
    using E(5) q by (auto simp: nat_less_iff)
  have lo: "- b < sep fr (nat (v ! 0)) q"
    using v0 fb q b by (intro sep_lower) simp_all
  have "f32_at z 0 = Fin (- b)"
    using E(4,6) by (simp add: f32_at_def)
  then have "\<not> js_le s (f32_at z k)"
    using lo "0.prems"(3) k0 by simp
  then have "pop f v z q k s = (k, s)"
    by (subst pop.simps) simp
  then show ?case
    using "0.prems" k0 lo E(6) by (simp add: cell_def)
next
  case (Suc n)
  have k: "1 \<le> k" "nat (k - 1) = n" "nat k = Suc n"
    using Suc.hyps(2) by simp_all
  have E: "0 \<le> K" "K < int q" "length v = h" "length z = h + 1"
    "\<forall>i \<le> nat K. 0 \<le> v ! i \<and> v ! i < int q" "\<forall>i \<le> nat K + 1. \<exists>r. z ! i = Fin r"
    "\<forall>i \<le> nat K. \<forall>t. (i = 0 \<or> cell z i \<le> t) \<and> (i = nat K \<or> t \<le> cell z (i + 1)) \<longrightarrow>
              (\<forall>p<q. parab fr (nat (v ! i)) t \<le> parab fr p t)"
    using env by (simp_all add: envelope_def)
  have kK: "nat k \<le> nat K" using Suc.prems(1,2) by simp
  have kz: "nat k < length z" using kK E(2,4) q by simp
  have "nat k \<le> nat K + 1" using kK by simp
  then obtain r where "z ! nat k = Fin r" using E(6) by blast
  then have zk: "f32_at z k = Fin (cell z (nat k))"
    using kz Suc.prems(1) by (simp add: f32_at_def cell_def)
  define pk where "pk = nat (v ! nat k)"
  have pk: "pk < q" using E(5) kK by (auto simp: pk_def nat_less_iff)
  show ?case
  proof (cases "sep fr pk q \<le> cell z (nat k)")
    case False
    then have "\<not> js_le s (f32_at z k)"
      using Suc.prems(3) zk by (simp add: pk_def)
    then have "pop f v z q k s = (k, s)"
      by (subst pop.simps) simp
    then show ?thesis
      using Suc.prems False by (simp add: pk_def)
  next
    case True
    then have "js_le s (f32_at z k)"
      using Suc.prems(3) zk by (simp add: pk_def)
    then have unf: "pop f v z q k s = pop f v z q (k - 1) (intersect f v q (k - 1))"
      by (subst pop.simps) simp
    have k1: "0 \<le> k - 1" "k - 1 \<le> K" "nat (k - 1) \<le> nat K" "nat (k - 1) < length v"
      using k(1) Suc.prems(2) kK E(2,3) q by simp_all
    have iv: "intersect f v q (k - 1) = Fin (sep fr (nat (v ! nat (k - 1))) q)"
      using E(5) k1 by (intro intersect_val [OF f k1(1) k1(4) _ _ q]) simp_all
    have top: "\<forall>t. cell z (nat (k - 1) + 1) \<le> t \<longrightarrow> (\<forall>p<q. parab fr q t \<le> parab fr p t)"
    proof (intro allI impI)
      fix t p
      assume "cell z (nat (k - 1) + 1) \<le> t" and p: "p < q"
      then have t: "cell z (nat k) \<le> t" using k by simp
      then have "sep fr pk q \<le> t" using True by simp
      then have a: "parab fr q t \<le> parab fr pk t"
        using sep_le(2) [OF pk] by simp
      show "parab fr q t \<le> parab fr p t"
      proof (cases "k < K \<and> cell z (nat k + 1) < t")
        case True
        then show ?thesis using Suc.prems(4) p by simp
      next
        case False
        then have "nat k = nat K \<or> t \<le> cell z (nat k + 1)"
          using Suc.prems(1,2) by auto
        then have "parab fr (nat (v ! nat k)) t \<le> parab fr p t"
          using E(7) [rule_format, of "nat k" t p] kK t p by blast
        then show ?thesis using a by (simp add: pk_def)
      qed
    qed
    have "case pop f v z q (k - 1) (intersect f v q (k - 1)) of (k1, s1) \<Rightarrow>
            0 \<le> k1 \<and> k1 \<le> k - 1 \<and> s1 = Fin (sep fr (nat (v ! nat k1)) q)
            \<and> cell z (nat k1) < sep fr (nat (v ! nat k1)) q
            \<and> (k1 < K \<longrightarrow> (\<forall>t. cell z (nat k1 + 1) \<le> t \<longrightarrow> (\<forall>p<q. parab fr q t \<le> parab fr p t)))"
      using k(2) k1(1,2) iv top by (intro Suc.hyps(1)) simp_all
    then show ?thesis
      unfolding unf by (auto split: prod.splits)
  qed
qed



lemma mono_chain:
  fixes c :: "nat \<Rightarrow> real"
  shows "\<forall>i<n. c i < c (i + 1) \<Longrightarrow> i \<le> j \<Longrightarrow> j \<le> n \<Longrightarrow> c i \<le> c j"
proof (induction j)
  case 0
  then show ?case by simp
next
  case (Suc j)
  show ?case
  proof (cases "i = Suc j")
    case True
    then show ?thesis by simp
  next
    case False
    then have "c i \<le> c j" using Suc by simp
    moreover have "c j < c (j + 1)" using Suc.prems(1,3) by simp
    ultimately show ?thesis by simp
  qed
qed

lemma envelopeStep_envelope:
  assumes f: "length f = h" "\<forall>p<h. f ! p = Fin (fr p)"
    and q: "q < h" and fb: "\<forall>p<h. 0 \<le> fr p \<and> fr p \<le> b" and b: "0 \<le> b"
    and env: "envelope fr b h q st"
  shows "envelope fr b h (Suc q) (envelopeStep f b q st)"
proof -
  obtain K v z where st: "st = (K, v, z)"
    by (cases st)
  have E: "0 \<le> K" "K < int q" "length v = h" "length z = h + 1"
    "\<forall>i \<le> nat K. 0 \<le> v ! i \<and> v ! i < int q" "\<forall>i \<le> nat K + 1. \<exists>r. z ! i = Fin r"
    "z ! 0 = Fin (- b)" "\<forall>i < nat K. cell z i < cell z (i + 1)"
    using env unfolding st by (simp_all add: envelope_def)
  have Ee: "\<And>i t p. i \<le> nat K \<Longrightarrow> i = 0 \<or> cell z i \<le> t \<Longrightarrow> i = nat K \<or> t \<le> cell z (i + 1) \<Longrightarrow>
              p < q \<Longrightarrow> parab fr (nat (v ! i)) t \<le> parab fr p t"
    using env unfolding st by (simp add: envelope_def)
  have envK: "envelope fr b h q (K, v, z)"
    using env st by simp
  have Kv: "nat K < length v"
    using E(1,2,3) q by simp
  have s0: "intersect f v q K = Fin (sep fr (nat (v ! nat K)) q)"
    using E(5) by (intro intersect_val [OF f E(1) Kv _ _ q]) simp_all
  obtain k1 s1 where p: "pop f v z q K (intersect f v q K) = (k1, s1)"
    by (cases "pop f v z q K (intersect f v q K)")
  define r1 where "r1 = sep fr (nat (v ! nat k1)) q"
  have P: "0 \<le> k1" "k1 \<le> K" "s1 = Fin r1" "cell z (nat k1) < r1"
    "k1 < K \<longrightarrow> (\<forall>t. cell z (nat k1 + 1) \<le> t \<longrightarrow> (\<forall>p<q. parab fr q t \<le> parab fr p t))"
    using pop_envelope [OF f q fb b envK E(1) order_refl s0] unfolding p r1_def by simp_all
  define n1 where "n1 = nat k1"
  define n2 where "n2 = Suc n1"
  define v' where "v' = v[n2 := int q]"
  define z' where "z' = z[n2 := Fin r1, Suc n2 := Fin b]"
  have n: "n1 \<le> nat K" "n2 < h" "Suc n2 < length z" "n2 < length v" "nat (k1 + 1) = n2"
    "nat (k1 + 1 + 1) = Suc n2"
    using P(1,2) E(1,2,3,4) q by (simp_all add: n1_def n2_def)
  define p1 where "p1 = nat (v ! n1)"
  have p1: "p1 < q"
    using E(5) n(1) by (auto simp: p1_def nat_less_iff)
  have r1: "r1 = sep fr p1 q"
    by (simp add: r1_def p1_def n1_def)
  have ki: "k1 + 1 = int n2" "k1 + 1 + 1 = int (Suc n2)"
    using P(1) by (simp_all add: n1_def n2_def)
  have pv: "i32_put v (int n2) (int q) = v'"
    using n(4) by (simp add: i32_put_def v'_def)
  have pz: "f32_put (f32_put z (int n2) (Fin r1)) (int n2 + 1) (Fin b) = z'"
  proof -
    have "nat (int n2 + 1) = Suc n2" "nat (int n2) = n2"
      by simp_all
    then show ?thesis
      using n(3) unfolding f32_put_def z'_def by simp
  qed
  have res: "envelopeStep f b q st = (k1 + 1, v', z')"
    unfolding st envelopeStep_def Let_def prod.case p P(3) ki(1) pv pz by simp
  have cz: "cell z' i = cell z i" if "i \<le> n1" for i
    using that by (simp add: cell_def z'_def n2_def)
  have cz2: "cell z' n2 = r1"
    using n(3) by (simp add: cell_def z'_def)
  have vi: "v' ! i = v ! i" if "i \<le> n1" for i
    using that by (simp add: v'_def n2_def)
  have v2: "v' ! n2 = int q"
    using n(4) by (simp add: v'_def)
  have up: "r1 \<le> cell z (n1 + 1)" if "k1 < K"
  proof -
    have "parab fr q (cell z (n1 + 1)) \<le> parab fr p1 (cell z (n1 + 1))"
      using P(5) that p1 by (simp add: n1_def)
    then show ?thesis
      using sep_le(2) [OF p1] by (simp add: r1)
  qed
  have top: "parab fr q t \<le> parab fr p t" if "r1 \<le> t" "p < q" for t p
  proof (cases "k1 < K \<and> cell z (n1 + 1) \<le> t")
    case True
    then show ?thesis using P(5) that(2) by (simp add: n1_def)
  next
    case False
    then have "n1 = nat K \<or> t \<le> cell z (n1 + 1)"
      using P(1,2) by (auto simp: n1_def)
    moreover have "n1 = 0 \<or> cell z n1 \<le> t"
      using P(4) that(1) by (simp add: n1_def)
    ultimately have "parab fr p1 t \<le> parab fr p t"
      unfolding p1_def using n(1) that(2) by (intro Ee) simp_all
    moreover have "parab fr q t \<le> parab fr p1 t"
      using sep_le(2) [OF p1] that(1) by (simp add: r1)
    ultimately show ?thesis by simp
  qed
  have below: "parab fr (nat (v ! i)) t \<le> parab fr p t"
    if "i \<le> n1" "i = 0 \<or> cell z i \<le> t" "t \<le> cell z' (i + 1)" "p < Suc q" for i t p
  proof -
    have t1: "t \<le> r1 \<and> (i = nat K \<or> t \<le> cell z (i + 1))"
    proof (cases "i = n1")
      case True
      then have "t \<le> r1" using that(3) cz2 by (simp add: n2_def)
      moreover have "i = nat K \<or> t \<le> cell z (i + 1)"
      proof (cases "k1 < K")
        case True
        then show ?thesis using up \<open>t \<le> r1\<close> \<open>i = n1\<close> by simp
      next
        case False
        then show ?thesis using P(1,2) \<open>i = n1\<close> by (simp add: n1_def)
      qed
      ultimately show ?thesis by simp
    next
      case False
      then have i: "i + 1 \<le> n1" using that(1) by simp
      then have "t \<le> cell z (i + 1)" using that(3) cz by simp
      moreover have "cell z (i + 1) \<le> cell z n1"
        using E(8) i n(1) by (intro mono_chain [where n = "nat K"]) simp_all
      ultimately show ?thesis using P(4) by (simp add: n1_def)
    qed
    have iK: "i \<le> nat K" using that(1) n(1) by simp
    show ?thesis
    proof (cases "p = q")
      case False
      then have "p < q" using that(4) by simp
      then show ?thesis using iK that(2) t1 by (intro Ee) simp_all
    next
      case True
      have "parab fr (nat (v ! i)) t \<le> parab fr p1 t"
        using iK that(2) t1 p1 by (intro Ee) simp_all
      moreover have "parab fr p1 t \<le> parab fr q t"
        using sep_le(1) [OF p1] t1 by (simp add: r1)
      ultimately show ?thesis using True by simp
    qed
  qed
  have e1: "0 \<le> k1 + 1" "k1 + 1 < int (Suc q)" "length v' = h" "length z' = h + 1"
    using P(1,2) E(2,3,4) by (simp_all add: v'_def z'_def)
  have e2: "\<forall>i \<le> n2. 0 \<le> v' ! i \<and> v' ! i < int (Suc q)"
  proof (intro allI impI)
    fix i assume "i \<le> n2"
    show "0 \<le> v' ! i \<and> v' ! i < int (Suc q)"
    proof (cases "i = n2")
      case True
      then show ?thesis using v2 by simp
    next
      case False
      then have "i \<le> n1" using \<open>i \<le> n2\<close> by (simp add: n2_def)
      then show ?thesis using vi E(5) n(1) by (metis le_trans less_SucI of_nat_Suc zle_add1_eq_le zless_add1_eq add.commute)
    qed
  qed
  have e3: "\<forall>i \<le> n2 + 1. \<exists>r. z' ! i = Fin r"
  proof (intro allI impI)
    fix i assume i: "i \<le> n2 + 1"
    consider "i = Suc n2" | "i = n2" | "i \<le> n1"
      using i unfolding n2_def by linarith
    then show "\<exists>r. z' ! i = Fin r"
    proof cases
      case 1
      then show ?thesis using n(3) by (simp add: z'_def)
    next
      case 2
      then show ?thesis using n(3) by (simp add: z'_def)
    next
      case 3
      then have "z' ! i = z ! i" by (simp add: z'_def n2_def)
      moreover have "i \<le> nat K + 1" using 3 n(1) by simp
      ultimately show ?thesis using E(6) by simp
    qed
  qed
  have e4: "z' ! 0 = Fin (- b)" "z' ! (n2 + 1) = Fin b"
    using E(7) n(3) by (simp_all add: z'_def n2_def)
  have e5: "\<forall>i < n2. cell z' i < cell z' (i + 1)"
  proof (intro allI impI)
    fix i assume "i < n2"
    show "cell z' i < cell z' (i + 1)"
    proof (cases "i = n1")
      case True
      then show ?thesis using cz [of n1] cz2 P(4) by (simp add: n2_def n1_def)
    next
      case False
      then have "i < n1" using \<open>i < n2\<close> by (simp add: n2_def)
      then show ?thesis using cz [of i] cz [of "i + 1"] E(8) n(1) by simp
    qed
  qed
  have e6: "\<forall>i \<le> n2. \<forall>t. (i = 0 \<or> cell z' i \<le> t) \<and> (i = n2 \<or> t \<le> cell z' (i + 1)) \<longrightarrow>
              (\<forall>p<Suc q. parab fr (nat (v' ! i)) t \<le> parab fr p t)"
  proof (intro allI impI)
    fix i t p
    assume i: "i \<le> n2" and c: "(i = 0 \<or> cell z' i \<le> t) \<and> (i = n2 \<or> t \<le> cell z' (i + 1))"
      and p: "p < Suc q"
    show "parab fr (nat (v' ! i)) t \<le> parab fr p t"
    proof (cases "i = n2")
      case True
      then have "r1 \<le> t" using c cz2 by (simp add: n2_def)
      then have "parab fr q t \<le> parab fr p t"
        using top p by (cases "p = q") simp_all
      then show ?thesis using True v2 by simp
    next
      case False
      then have i1: "i \<le> n1" using i by (simp add: n2_def)
      then have "parab fr (nat (v ! i)) t \<le> parab fr p t"
        using c False p cz [of i] by (intro below) auto
      then show ?thesis using vi [OF i1] by simp
    qed
  qed
  show ?thesis
    unfolding res envelope_def prod.case n(5)
    using e1 e2 e3 e4 e5 e6 by simp
qed



lemma envelope_fold:
  assumes f: "length f = h" "\<forall>p<h. f ! p = Fin (fr p)"
    and fb: "\<forall>p<h. 0 \<le> fr p \<and> fr p \<le> b" and b: "0 \<le> b"
  shows "envelope fr b h a st \<Longrightarrow> a \<le> m \<Longrightarrow> m \<le> h \<Longrightarrow>
         envelope fr b h m (fold (envelopeStep f b) [a..<m] st)"
proof (induction m)
  case 0
  then show ?case by simp
next
  case (Suc m)
  show ?case
  proof (cases "a = Suc m")
    case True
    then show ?thesis using Suc.prems by simp
  next
    case False
    then have am: "a \<le> m" using Suc.prems by simp
    then have "envelope fr b h m (fold (envelopeStep f b) [a..<m] st)"
      using Suc by simp
    then have "envelope fr b h (Suc m) (envelopeStep f b m (fold (envelopeStep f b) [a..<m] st))"
      using Suc.prems by (intro envelopeStep_envelope [OF f _ fb b]) simp_all
    then show ?thesis
      using am by simp
  qed
qed

lemma advance_envelope:
  assumes env: "envelope fr b h q (kf, v, z)" and q: "q \<le> h" and yb: "real y \<le> b"
  shows "0 \<le> k \<Longrightarrow> k \<le> kf \<Longrightarrow> k = 0 \<or> cell z (nat k) < real y \<Longrightarrow>
         k \<le> advance z y k \<and> advance z y k \<le> kf
         \<and> (advance z y k = 0 \<or> cell z (nat (advance z y k)) < real y)
         \<and> (advance z y k = kf \<or> real y \<le> cell z (nat (advance z y k) + 1))"
proof (induction "nat (kf - k)" arbitrary: k)
  case 0
  then have k: "k = kf" by simp
  have E: "0 \<le> kf" "kf < int q" "length z = h + 1" "z ! (nat kf + 1) = Fin b"
    using env by (simp_all add: envelope_def)
  have "f32_at z (k + 1) = Fin b"
    using E q k by (simp add: f32_at_def nat_add_distrib)
  then have "\<not> js_lt (f32_at z (k + 1)) (Fin (real y))"
    using yb by simp
  then have "advance z y k = k"
    by (subst advance.simps) simp
  then show ?case using "0.prems" k by simp
next
  case (Suc n)
  have E: "0 \<le> kf" "kf < int q" "length z = h + 1" "\<forall>i \<le> nat kf + 1. \<exists>r. z ! i = Fin r"
    using env by (simp_all add: envelope_def)
  have lt: "k < kf" using Suc.hyps(2) by simp
  have "nat k + 1 \<le> nat kf + 1" using lt Suc.prems(1) by simp
  then obtain r where r: "z ! (nat k + 1) = Fin r" using E(4) by blast
  have zk: "f32_at z (k + 1) = Fin (cell z (nat k + 1))"
    using E(1,2,3) q lt Suc.prems(1) r by (simp add: f32_at_def nat_add_distrib cell_def)
  show ?case
  proof (cases "cell z (nat k + 1) < real y")
    case False
    then have "advance z y k = k"
      using zk by (subst advance.simps) simp
    then show ?thesis using Suc.prems False lt by simp
  next
    case True
    then have unf: "advance z y k = advance z y (k + 1)"
      using zk by (subst advance.simps) simp
    have "nat (k + 1) = nat k + 1" using Suc.prems(1) by simp
    then have "k + 1 \<le> advance z y (k + 1) \<and> advance z y (k + 1) \<le> kf
         \<and> (advance z y (k + 1) = 0 \<or> cell z (nat (advance z y (k + 1))) < real y)
         \<and> (advance z y (k + 1) = kf \<or> real y \<le> cell z (nat (advance z y (k + 1)) + 1))"
      using Suc.hyps(2) Suc.prems(1) lt True by (intro Suc.hyps(1)) simp_all
    then show ?thesis unfolding unf by simp
  qed
qed

lemma fillStep_min:
  assumes env: "envelope fr b h h (kf, v, z)"
    and f: "length f = h" "\<forall>p<h. f ! p = Fin (fr p)"
    and yb: "real y \<le> b" and y: "y < h"
    and k: "0 \<le> k" "k \<le> kf" "k = 0 \<or> cell z (nat k) < real y"
    and idx: "y * w + x < length d"
  shows "\<exists>k1 m. fillStep w x f v z y (k, d) = (k1, d[y * w + x := Fin m])
           \<and> 0 \<le> k1 \<and> k1 \<le> kf \<and> (k1 = 0 \<or> cell z (nat k1) < real (Suc y))
           \<and> is_min m (\<lambda>p. parab fr p (real y)) h"
proof -
  define k1 where "k1 = advance z y k"
  have a: "k \<le> k1" "k1 \<le> kf" "k1 = 0 \<or> cell z (nat k1) < real y"
    "k1 = kf \<or> real y \<le> cell z (nat k1 + 1)"
    using advance_envelope [OF env order_refl yb k] by (simp_all add: k1_def)
  have E: "0 \<le> kf" "kf < int h" "length v = h"
    "\<forall>i \<le> nat kf. 0 \<le> v ! i \<and> v ! i < int h"
    using env by (simp_all add: envelope_def)
  have Ee: "\<And>i t p. i \<le> nat kf \<Longrightarrow> i = 0 \<or> cell z i \<le> t \<Longrightarrow> i = nat kf \<or> t \<le> cell z (i + 1) \<Longrightarrow>
              p < h \<Longrightarrow> parab fr (nat (v ! i)) t \<le> parab fr p t"
    using env by (simp add: envelope_def)
  have k1: "0 \<le> k1" "nat k1 \<le> nat kf" "nat k1 < length v"
    using a(1,2) k(1) E(1,2,3) by simp_all
  define p where "p = nat (v ! nat k1)"
  have p: "v ! nat k1 = int p" "p < h"
    using E(4) k1(2) by (auto simp: p_def nat_less_iff)
  have iv: "i32_at v k1 = Some (int p)"
    using k1 p(1) by (simp add: i32_at_def)
  have fp: "f32_at f (int p) = Fin (fr p)"
    using f p(2) by (simp add: f32_at_def)
  define m where "m = parab fr p (real y)"
  have "fillStep w x f v z y (k, d) = (k1, f32_put d (int (y * w + x)) (Fin m))"
    unfolding fillStep_def prod.case Let_def k1_def [symmetric] iv option.case fp
    by (simp add: m_def parab_def)
  then have res: "fillStep w x f v z y (k, d) = (k1, d[y * w + x := Fin m])"
    using idx by (simp add: f32_put_def del: of_nat_add of_nat_mult)
  have lo: "m \<le> parab fr p' (real y)" if "p' < h" for p'
  proof -
    have "nat k1 = 0 \<or> cell z (nat k1) \<le> real y"
      using a(3) k1(1) by auto
    moreover have "nat k1 = nat kf \<or> real y \<le> cell z (nat k1 + 1)"
      using a(4) by auto
    ultimately show ?thesis
      unfolding m_def p_def using k1(2) that by (intro Ee) simp_all
  qed
  have "is_min m (\<lambda>p. parab fr p (real y)) h"
    unfolding is_min_def using lo p(2) m_def by blast
  moreover have "k1 = 0 \<or> cell z (nat k1) < real (Suc y)"
    using a(3) by auto
  ultimately show ?thesis
    using res k1(1) a(2) by blast
qed



lemma col_index_neq: "y < m \<Longrightarrow> x < w \<Longrightarrow> y * w + x \<noteq> m * w + (x :: nat)"
proof -
  assume "y < m" and "x < w"
  then have "y * w + x < m * w" by (rule row_index)
  then show ?thesis by linarith
qed

lemma fill_fold_min:
  assumes env: "envelope fr b h h (kf, v, z)"
    and f: "length f = h" "\<forall>p<h. f ! p = Fin (fr p)"
    and hb: "real h \<le> b" and x: "x < w" and len: "length d0 = w * h" and fin: "all_fin d0"
  shows "m \<le> h \<Longrightarrow>
    (case fold (fillStep w x f v z) [0..<m] (0, d0) of (k, d) \<Rightarrow>
        0 \<le> k \<and> k \<le> kf \<and> (k = 0 \<or> cell z (nat k) < real m) \<and> length d = w * h \<and> all_fin d
        \<and> (\<forall>i<w * h. i mod w \<noteq> x \<longrightarrow> d ! i = d0 ! i)
        \<and> (\<forall>y<m. is_min (cell d (y * w + x)) (\<lambda>p. parab fr p (real y)) h))"
proof (induction m)
  case 0
  have "0 \<le> kf" using env by (simp add: envelope_def)
  then show ?case using len fin by simp
next
  case (Suc m)
  obtain k d where st: "fold (fillStep w x f v z) [0..<m] (0, d0) = (k, d)"
    by (cases "fold (fillStep w x f v z) [0..<m] (0, d0)")
  have ih: "0 \<le> k" "k \<le> kf" "k = 0 \<or> cell z (nat k) < real m" "length d = w * h" "all_fin d"
    "\<forall>i<w * h. i mod w \<noteq> x \<longrightarrow> d ! i = d0 ! i"
    "\<forall>y<m. is_min (cell d (y * w + x)) (\<lambda>p. parab fr p (real y)) h"
    using Suc unfolding st by simp_all
  have mh: "m < h" using Suc.prems by simp
  then have mb: "real m \<le> b" using hb by simp
  have "m * w + x < h * w" using mh x by (rule row_index)
  then have idx: "m * w + x < length d" using ih(4) by (simp add: mult.commute)
  obtain k1 mm where r: "fillStep w x f v z m (k, d) = (k1, d[m * w + x := Fin mm])"
    "0 \<le> k1" "k1 \<le> kf" "k1 = 0 \<or> cell z (nat k1) < real (Suc m)"
    "is_min mm (\<lambda>p. parab fr p (real m)) h"
    using fillStep_min [OF env f mb mh ih(1,2,3) idx] by blast
  define d' where "d' = d[m * w + x := Fin mm]"
  have F: "fold (fillStep w x f v z) [0..<Suc m] (0, d0) = (k1, d')"
    by (simp add: st r(1) d'_def)
  have l: "length d' = w * h" "all_fin d'"
    using ih(4,5) by (simp_all add: d'_def all_fin_update)
  have u: "\<forall>i<w * h. i mod w \<noteq> x \<longrightarrow> d' ! i = d0 ! i"
  proof (intro allI impI)
    fix i assume "i < w * h" "i mod w \<noteq> x"
    moreover have "(m * w + x) mod w = x" using x by simp
    ultimately have "i \<noteq> m * w + x" by auto
    then show "d' ! i = d0 ! i"
      using ih(6) \<open>i < w * h\<close> \<open>i mod w \<noteq> x\<close> by (simp add: d'_def)
  qed
  have new: "is_min (cell d' (m * w + x)) (\<lambda>p. parab fr p (real m)) h"
    using r(5) idx by (simp add: cell_def d'_def)
  have old: "is_min (cell d' (y * w + x)) (\<lambda>p. parab fr p (real y)) h" if "y < m" for y
  proof -
    have "y * w + x \<noteq> m * w + x" using that x by (rule col_index_neq)
    then have "cell d' (y * w + x) = cell d (y * w + x)"
      by (simp add: cell_def d'_def)
    then show ?thesis using ih(7) that by simp
  qed
  have "\<forall>y<Suc m. is_min (cell d' (y * w + x)) (\<lambda>p. parab fr p (real y)) h"
    using new old by (auto simp: less_Suc_eq)
  then show ?case
    unfolding F using r(2,3,4) l u by simp
qed

lemma columnPass_min:
  assumes fin: "all_fin dst" and len: "length dst = w * h"
    and sc: "length f = h" "length v = h" "length z = h + 1"
    and x: "x < w" and h: "0 < h"
    and bnd: "\<forall>q<h. 0 \<le> cell dst (q * w + x) \<and> cell dst (q * w + x) \<le> real (w + h)"
  shows "case columnPass w h (real ((w + h) * (w + h))) x (dst, f, v, z) of (d', f', v', z') \<Rightarrow>
     length d' = w * h \<and> all_fin d' \<and> length f' = h \<and> length v' = h \<and> length z' = h + 1
     \<and> (\<forall>i<w * h. i mod w \<noteq> x \<longrightarrow> d' ! i = dst ! i)
     \<and> (\<forall>y<h. is_min (cell d' (y * w + x))
           (\<lambda>q. cell dst (q * w + x) * cell dst (q * w + x)
                 + (real y - real q) * (real y - real q)) h)"
proof -
  define b where "b = real ((w + h) * (w + h))"
  define fr where "fr q = cell dst (q * w + x) * cell dst (q * w + x)" for q
  define g where "g y = js_mul (f32_at dst (int (y * w + x))) (f32_at dst (int (y * w + x)))" for y
  define f1 where "f1 = fold (\<lambda>y f'. f32_put f' (int y) (g y)) [0..<h] f"
  define v1 where "v1 = i32_put v 0 0"
  define z1 where "z1 = f32_put (f32_put z 0 (Fin (- b))) 1 (Fin b)"
  have b0: "0 \<le> b" by (simp add: b_def)
  have "h \<le> (w + h) * (w + h)"
    using h by (metis le_add2 le_square le_trans)
  then have hb: "real h \<le> b"
    unfolding b_def by (rule of_nat_mono)
  have f1: "length f1 = h" "\<forall>y<h. f1 ! y = g y"
    using extract_fold [OF sc(1), of h g] by (simp_all add: f1_def)
  have gy: "g y = Fin (fr y)" if "y < h" for y
  proof -
    have "y * w + x < h * w" using that x by (rule row_index)
    then have "y * w + x < length dst" using len by (simp add: mult.commute)
    then have "f32_at dst (int (y * w + x)) = Fin (cell dst (y * w + x))"
      using all_fin_at [OF fin] by (simp add: f32_at_def del: of_nat_add of_nat_mult)
    then show ?thesis by (simp add: g_def fr_def)
  qed
  have f1v: "\<forall>p<h. f1 ! p = Fin (fr p)"
    using f1(2) gy by simp
  have fb: "\<forall>p<h. 0 \<le> fr p \<and> fr p \<le> b"
  proof (intro allI impI)
    fix p assume "p < h"
    then have c: "0 \<le> cell dst (p * w + x)" "cell dst (p * w + x) \<le> real (w + h)"
      using bnd by simp_all
    then have "cell dst (p * w + x) * cell dst (p * w + x) \<le> real (w + h) * real (w + h)"
      by (intro mult_mono) simp_all
    then show "0 \<le> fr p \<and> fr p \<le> b"
      by (simp add: fr_def b_def)
  qed
  have v1: "length v1 = h" "v1 ! 0 = 0"
    using sc(2) h by (simp_all add: v1_def i32_put_def)
  have z1: "length z1 = h + 1" "z1 ! 0 = Fin (- b)" "z1 ! 1 = Fin b"
    using sc(3) h by (simp_all add: z1_def f32_put_def)
  have e1: "envelope fr b h 1 (0, v1, z1)"
    unfolding envelope_def prod.case using v1 z1 by (auto simp: less_Suc_eq_le le_Suc_eq)
  obtain k v2 z2 where fe: "fold (envelopeStep f1 b) [1..<h] (0, v1, z1) = (k, v2, z2)"
    by (cases "fold (envelopeStep f1 b) [1..<h] (0, v1, z1)")
  have env: "envelope fr b h h (k, v2, z2)"
    using envelope_fold [OF f1(1) f1v fb b0 e1, of h] h unfolding fe by simp
  have lens: "length v2 = h" "length z2 = h + 1"
    using env by (simp_all add: envelope_def)
  obtain kk d' where ff: "fold (fillStep w x f1 v2 z2) [0..<h] (0, dst) = (kk, d')"
    by (cases "fold (fillStep w x f1 v2 z2) [0..<h] (0, dst)")
  have fill: "length d' = w * h" "all_fin d'" "\<forall>i<w * h. i mod w \<noteq> x \<longrightarrow> d' ! i = dst ! i"
    "\<forall>y<h. is_min (cell d' (y * w + x)) (\<lambda>p. parab fr p (real y)) h"
    using fill_fold_min [OF env f1(1) f1v hb x len fin, of h] unfolding ff by simp_all
  have res: "columnPass w h b x (dst, f, v, z) = (d', f1, v2, z2)"
    unfolding columnPass_def prod.case Let_def g_def [symmetric] f1_def [symmetric]
      v1_def [symmetric] z1_def [symmetric] fe ff by simp
  show ?thesis
    unfolding b_def [symmetric] res prod.case
    using fill f1(1) lens by (simp add: parab_def fr_def)
qed



lemma column_fold_min:
  assumes fin: "all_fin R" and len: "length R = w * h" and h: "0 < h"
    and bnd: "\<forall>i<w * h. 0 \<le> cell R i \<and> cell R i \<le> real (w + h)"
  shows "m \<le> w \<Longrightarrow> length f = h \<Longrightarrow> length v = h \<Longrightarrow> length z = h + 1 \<Longrightarrow>
    (case fold (columnPass w h (real ((w + h) * (w + h)))) [0..<m] (R, f, v, z) of (d, f', v', z') \<Rightarrow>
       length d = w * h \<and> all_fin d \<and> length f' = h \<and> length v' = h \<and> length z' = h + 1
       \<and> (\<forall>i<w * h. m \<le> i mod w \<longrightarrow> d ! i = R ! i)
       \<and> (\<forall>y<h. \<forall>x<m. is_min (cell d (y * w + x))
             (\<lambda>q. cell R (q * w + x) * cell R (q * w + x)
                   + (real y - real q) * (real y - real q)) h))"
proof (induction m)
  case 0
  then show ?case using fin len by simp
next
  case (Suc m)
  obtain d f1 v1 z1 where st:
    "fold (columnPass w h (real ((w + h) * (w + h)))) [0..<m] (R, f, v, z) = (d, f1, v1, z1)"
    by (cases "fold (columnPass w h (real ((w + h) * (w + h)))) [0..<m] (R, f, v, z)")
  have ih: "length d = w * h" "all_fin d" "length f1 = h" "length v1 = h" "length z1 = h + 1"
    "\<forall>i<w * h. m \<le> i mod w \<longrightarrow> d ! i = R ! i"
    "\<forall>y<h. \<forall>x<m. is_min (cell d (y * w + x))
             (\<lambda>q. cell R (q * w + x) * cell R (q * w + x)
                   + (real y - real q) * (real y - real q)) h"
    using Suc unfolding st by simp_all
  have mw: "m < w" using Suc.prems(1) by simp
  have same: "cell d (q * w + m) = cell R (q * w + m)" "q * w + m < w * h" if "q < h" for q
  proof -
    have "q * w + m < h * w" using that mw by (rule row_index)
    then show i: "q * w + m < w * h" by (simp add: mult.commute)
    have "(q * w + m) mod w = m" using mw by simp
    then show "cell d (q * w + m) = cell R (q * w + m)"
      using ih(6) i by (simp add: cell_def)
  qed
  have b: "\<forall>q<h. 0 \<le> cell d (q * w + m) \<and> cell d (q * w + m) \<le> real (w + h)"
    using same bnd by simp
  obtain d' f2 v2 z2 where cp:
    "columnPass w h (real ((w + h) * (w + h))) m (d, f1, v1, z1) = (d', f2, v2, z2)"
    by (cases "columnPass w h (real ((w + h) * (w + h))) m (d, f1, v1, z1)")
  have r: "length d' = w * h" "all_fin d'" "length f2 = h" "length v2 = h" "length z2 = h + 1"
    "\<forall>i<w * h. i mod w \<noteq> m \<longrightarrow> d' ! i = d ! i"
    "\<forall>y<h. is_min (cell d' (y * w + m))
           (\<lambda>q. cell d (q * w + m) * cell d (q * w + m)
                 + (real y - real q) * (real y - real q)) h"
    using columnPass_min [OF ih(2,1,3,4,5) mw h b] unfolding cp by simp_all
  have "[0..<Suc m] = [0..<m] @ [m]"
    by simp
  then have F: "fold (columnPass w h (real ((w + h) * (w + h)))) [0..<Suc m] (R, f, v, z) = (d', f2, v2, z2)"
    by (simp only: fold_append comp_apply fold.simps id_apply st cp)
  have u: "\<forall>i<w * h. Suc m \<le> i mod w \<longrightarrow> d' ! i = R ! i"
    using r(6) ih(6) by simp
  have new: "is_min (cell d' (y * w + m))
             (\<lambda>q. cell R (q * w + m) * cell R (q * w + m)
                   + (real y - real q) * (real y - real q)) h" if "y < h" for y
  proof -
    have "is_min (cell d' (y * w + m))
           (\<lambda>q. cell d (q * w + m) * cell d (q * w + m)
                 + (real y - real q) * (real y - real q)) h
        = is_min (cell d' (y * w + m))
             (\<lambda>q. cell R (q * w + m) * cell R (q * w + m)
                   + (real y - real q) * (real y - real q)) h"
      by (rule is_min_cong) (simp add: same)
    then show ?thesis using r(7) that by simp
  qed
  have old: "is_min (cell d' (y * w + x))
             (\<lambda>q. cell R (q * w + x) * cell R (q * w + x)
                   + (real y - real q) * (real y - real q)) h" if "y < h" "x < m" for y x
  proof -
    have "y * w + x < h * w" using that mw by (intro row_index) simp_all
    moreover have "(y * w + x) mod w = x" using that mw by simp
    ultimately have "cell d' (y * w + x) = cell d (y * w + x)"
      using r(6) that(2) by (simp add: cell_def mult.commute)
    then show ?thesis using ih(7) that by simp
  qed
  have "\<forall>y<h. \<forall>x<Suc m. is_min (cell d' (y * w + x))
             (\<lambda>q. cell R (q * w + x) * cell R (q * w + x)
                   + (real y - real q) * (real y - real q)) h"
    using new old by (auto simp: less_Suc_eq)
  then show ?case
    unfolding F using r(1-5) u by simp
qed

lemma is_min_bounds:
  assumes "is_min a g n" and "\<forall>i<n. lo \<le> g i" and "i < n" and "g i \<le> hi"
  shows "lo \<le> a \<and> a \<le> hi"
  using assms unfolding is_min_def by (metis order_trans)

lemma distanceTransform2D_min:
  assumes fin: "all_fin d0" and len: "length d0 = w * h" and w: "0 < w" and h: "0 < h"
    and bnd: "\<forall>i<w * h. 0 \<le> cell d0 i \<and> cell d0 i \<le> real (w + h)"
  shows "length (distanceTransform2D d0 w h) = w * h"
    and "all_fin (distanceTransform2D d0 w h)"
    and "y < h \<Longrightarrow> x < w \<Longrightarrow>
         is_min (cell (distanceTransform2D d0 w h) (y * w + x))
           (\<lambda>q. cell (horizontalPass w h d0) (q * w + x) * cell (horizontalPass w h d0) (q * w + x)
                 + (real y - real q) * (real y - real q)) h"
proof -
  define R where "R = horizontalPass w h d0"
  have R: "length R = w * h" "all_fin R"
    "\<And>y c. y < h \<Longrightarrow> c < w \<Longrightarrow>
       is_min (cell R (y * w + c)) (\<lambda>c'. cell d0 (y * w + c') + \<bar>real c - real c'\<bar>) w"
    using horizontalPass_min [OF fin len w] by (simp_all add: R_def)
  have Rb: "\<forall>i<w * h. 0 \<le> cell R i \<and> cell R i \<le> real (w + h)"
  proof (intro allI impI)
    fix i assume i: "i < w * h"
    define y where "y = i div w"
    define c where "c = i mod w"
    have yc: "y < h" "c < w" "i = y * w + c"
      using i w by (simp_all add: y_def c_def less_mult_imp_div_less mult.commute)
    have m: "is_min (cell R i) (\<lambda>c'. cell d0 (y * w + c') + \<bar>real c - real c'\<bar>) w"
      using R(3) [OF yc(1,2)] yc(3) by simp
    have lo: "\<forall>c'<w. 0 \<le> cell d0 (y * w + c') + \<bar>real c - real c'\<bar>"
    proof (intro allI impI)
      fix c' assume "c' < w"
      then have "y * w + c' < h * w" using yc(1) by (intro row_index)
      then have "0 \<le> cell d0 (y * w + c')" using bnd by (simp add: mult.commute)
      then show "0 \<le> cell d0 (y * w + c') + \<bar>real c - real c'\<bar>" by simp
    qed
    have "cell d0 (y * w + c) + \<bar>real c - real c\<bar> \<le> real (w + h)"
      using bnd i yc(3) by simp
    then show "0 \<le> cell R i \<and> cell R i \<le> real (w + h)"
      using is_min_bounds [OF m lo yc(2)] by simp
  qed
  obtain d f v z where st:
    "fold (columnPass w h (real ((w + h) * (w + h)))) [0..<w]
       (R, replicate h (Fin 0), replicate h 0, replicate (h + 1) (Fin 0)) = (d, f, v, z)"
    by (cases "fold (columnPass w h (real ((w + h) * (w + h)))) [0..<w]
       (R, replicate h (Fin 0), replicate h 0, replicate (h + 1) (Fin 0))")
  have c: "length d = w * h" "all_fin d"
    "\<forall>y<h. \<forall>x<w. is_min (cell d (y * w + x))
             (\<lambda>q. cell R (q * w + x) * cell R (q * w + x)
                   + (real y - real q) * (real y - real q)) h"
    using column_fold_min [OF R(2,1) h Rb, of w "replicate h (Fin 0)" "replicate h 0"
        "replicate (h + 1) (Fin 0)"] unfolding st by simp_all
  have res: "distanceTransform2D d0 w h = d"
    unfolding distanceTransform2D_def Let_def R_def [symmetric] st by simp
  show "length (distanceTransform2D d0 w h) = w * h" "all_fin (distanceTransform2D d0 w h)"
    using c(1,2) res by simp_all
  show "is_min (cell (distanceTransform2D d0 w h) (y * w + x))
           (\<lambda>q. cell (horizontalPass w h d0) (q * w + x) * cell (horizontalPass w h d0) (q * w + x)
                 + (real y - real q) * (real y - real q)) h" if "y < h" "x < w"
    using c(3) that unfolding res R_def by simp
qed



text \<open>
  Seeded with 0 on the cells of \<open>P\<close> and \<open>w + h\<close> elsewhere, the transform gives at every cell
  the squared distance to the nearest cell of \<open>P\<close>, and \<open>(w + h)\<^sup>2\<close> when \<open>P\<close> has no cell.
\<close>

lemma sq_mono: "0 \<le> a \<Longrightarrow> a \<le> b \<Longrightarrow> a * a \<le> b * (b :: real)"
  by (intro mult_mono) simp_all

lemma sq_abs_less: "\<bar>a\<bar> < b \<Longrightarrow> a * a < b * (b :: real)"
proof -
  assume a: "\<bar>a\<bar> < b"
  have "\<bar>a\<bar> * \<bar>a\<bar> < b * b"
    using a by (intro mult_strict_mono') simp_all
  then show ?thesis by simp
qed

lemma sq_dist_less:
  assumes "0 < w" and "i < w * h" and "j < w * h"
  shows "sq_dist w i j < real ((w + h) * (w + h))"
proof -
  have m: "i mod w < w" "j mod w < w" using assms(1) by simp_all
  have d: "i div w < h" "j div w < h"
    using assms by (simp_all add: less_mult_imp_div_less mult.commute)
  have "\<bar>real (i mod w) - real (j mod w)\<bar> < real w"
    using m by linarith
  then have a: "(real (i mod w) - real (j mod w)) * (real (i mod w) - real (j mod w)) < real w * real w"
    by (rule sq_abs_less)
  have "\<bar>real (i div w) - real (j div w)\<bar> < real h"
    using d by linarith
  then have b: "(real (i div w) - real (j div w)) * (real (i div w) - real (j div w)) < real h * real h"
    by (rule sq_abs_less)
  have "real w * real w + real h * real h \<le> real ((w + h) * (w + h))"
    by (simp add: algebra_simps)
  then show ?thesis
    unfolding sq_dist_def using a b by linarith
qed

lemma sq_dist_ge1:
  assumes "0 < w" and "i \<noteq> j"
  shows "1 \<le> sq_dist w i j"
proof -
  have "i mod w \<noteq> j mod w \<or> i div w \<noteq> j div w"
    using assms(2) by (metis div_mult_mod_eq)
  then show ?thesis
  proof
    assume "i mod w \<noteq> j mod w"
    then have "int (i mod w) - int (j mod w) \<noteq> 0" by simp
    then have "1 \<le> (of_int (int (i mod w) - int (j mod w)) :: real) * of_int (int (i mod w) - int (j mod w))"
      by (rule int_sq_ge1)
    then have "1 \<le> (real (i mod w) - real (j mod w)) * (real (i mod w) - real (j mod w))"
      by simp
    moreover have "0 \<le> (real (i div w) - real (j div w)) * (real (i div w) - real (j div w))"
      by simp
    ultimately show ?thesis unfolding sq_dist_def by linarith
  next
    assume "i div w \<noteq> j div w"
    then have "int (i div w) - int (j div w) \<noteq> 0" by simp
    then have "1 \<le> (of_int (int (i div w) - int (j div w)) :: real) * of_int (int (i div w) - int (j div w))"
      by (rule int_sq_ge1)
    then have "1 \<le> (real (i div w) - real (j div w)) * (real (i div w) - real (j div w))"
      by simp
    moreover have "0 \<le> (real (i mod w) - real (j mod w)) * (real (i mod w) - real (j mod w))"
      by simp
    ultimately show ?thesis unfolding sq_dist_def by linarith
  qed
qed

lemma nearest_sq_ge1:
  assumes "0 < w" and "\<not> P i"
  shows "1 \<le> nearest_sq w h P i"
proof (cases "filter P [0..<w * h] = []")
  case True
  have "1 \<le> (w + h) * (w + h)"
    using assms(1) by (simp add: Suc_le_eq)
  then have "(1 :: real) \<le> real ((w + h) * (w + h))"
    by (metis of_nat_1 of_nat_le_iff)
  then show ?thesis using True by (simp add: nearest_sq_def)
next
  case False
  have "\<forall>a \<in> set (map (sq_dist w i) (filter P [0..<w * h])). 1 \<le> a"
    using assms by (auto intro!: sq_dist_ge1)
  moreover have "\<exists>j<w * h. P j"
    using False by (auto simp: filter_empty_conv)
  ultimately have "1 \<le> Min (set (map (sq_dist w i) (filter P [0..<w * h])))"
    by (subst Min_ge_iff) auto
  then show ?thesis using False by (simp add: nearest_sq_def Let_def)
qed



lemma transform_nearest:
  assumes w: "0 < w" and h: "0 < h" and i: "i < w * h"
  shows "f32_at (distanceTransform2D (map (\<lambda>j. if P j then Fin 0 else Fin (real (w + h))) [0..<w * h]) w h)
           (int i) = Fin (nearest_sq w h P i)"
proof -
  define d0 where "d0 = map (\<lambda>j. if P j then Fin 0 else Fin (real (w + h))) [0..<w * h]"
  define R where "R = horizontalPass w h d0"
  define D where "D = cell (distanceTransform2D d0 w h) i"
  define y where "y = i div w"
  define x where "x = i mod w"
  define B where "B = real (w + h)"
  have B: "0 \<le> B" by (simp add: B_def)
  have yx: "y < h" "x < w" "i = y * w + x"
    using i w by (simp_all add: y_def x_def less_mult_imp_div_less mult.commute)
  have fin: "all_fin d0" and len: "length d0 = w * h"
    by (simp_all add: d0_def all_fin_def)
  have c0: "cell d0 j = (if P j then 0 else B)" if "j < w * h" for j
    using that by (simp add: d0_def cell_def B_def)
  have bnd: "\<forall>j<w * h. 0 \<le> cell d0 j \<and> cell d0 j \<le> real (w + h)"
    using c0 B by (simp add: B_def)
  have T: "length (distanceTransform2D d0 w h) = w * h" "all_fin (distanceTransform2D d0 w h)"
    using distanceTransform2D_min(1,2) [OF fin len w h bnd] by simp_all
  have A: "is_min D (\<lambda>q. cell R (q * w + x) * cell R (q * w + x)
                 + (real y - real q) * (real y - real q)) h"
    using distanceTransform2D_min(3) [OF fin len w h bnd yx(1,2)] unfolding D_def R_def yx(3) .
  have RM: "is_min (cell R (q * w + c)) (\<lambda>c'. cell d0 (q * w + c') + \<bar>real c - real c'\<bar>) w"
    if "q < h" "c < w" for q c
    using horizontalPass_min(3) [OF fin len w that] by (simp add: R_def)
  have idx: "q * w + c < w * h" if "q < h" "c < w" for q c
    using row_index [OF that] by (simp add: mult.commute)
  have R0: "0 \<le> cell R (q * w + c)" if qh: "q < h" and cw: "c < w" for q c
  proof -
    obtain c' where c': "c' < w" "cell R (q * w + c) = cell d0 (q * w + c') + \<bar>real c - real c'\<bar>"
      using RM [OF qh cw] unfolding is_min_def by blast
    have "0 \<le> cell d0 (q * w + c')"
      using bnd idx [OF qh c'(1)] by simp
    then show ?thesis using c'(2) by simp
  qed
  have Rle: "cell R (q * w + c) \<le> cell d0 (q * w + c') + \<bar>real c - real c'\<bar>"
    if "q < h" "c < w" "c' < w" for q c c'
    using RM [OF that(1,2)] that(3) unfolding is_min_def by blast
  have Dle: "D \<le> cell R (q * w + x) * cell R (q * w + x) + (real y - real q) * (real y - real q)"
    if "q < h" for q
    using A that unfolding is_min_def by blast
  have upper: "D \<le> sq_dist w i j" if j: "j < w * h" "P j" for j
  proof -
    define q where "q = j div w"
    define c' where "c' = j mod w"
    have qc: "q < h" "c' < w" "j = q * w + c'"
      using j(1) w by (simp_all add: q_def c'_def less_mult_imp_div_less mult.commute)
    have "cell d0 (q * w + c') = 0"
      using c0 [OF j(1)] j(2) qc(3) by simp
    then have "cell R (q * w + x) \<le> \<bar>real x - real c'\<bar>"
      using Rle [OF qc(1) yx(2) qc(2)] by simp
    then have "cell R (q * w + x) * cell R (q * w + x) \<le> \<bar>real x - real c'\<bar> * \<bar>real x - real c'\<bar>"
      using R0 [OF qc(1) yx(2)] by (intro sq_mono) simp_all
    then have "D \<le> (real x - real c') * (real x - real c') + (real y - real q) * (real y - real q)"
      using Dle [OF qc(1)] by simp
    then show ?thesis
      by (simp add: sq_dist_def x_def y_def q_def c'_def)
  qed
  have cap: "D \<le> B * B"
  proof -
    have "cell R (y * w + x) \<le> cell d0 (y * w + x) + \<bar>real x - real x\<bar>"
      by (rule Rle [OF yx(1,2,2)])
    also have "\<dots> \<le> B"
      using bnd i yx(3) by (simp add: B_def)
    finally have "cell R (y * w + x) * cell R (y * w + x) \<le> B * B"
      using R0 [OF yx(1,2)] by (intro sq_mono) simp_all
    then show ?thesis using Dle [OF yx(1)] by simp
  qed
  obtain q where q: "q < h"
    "D = cell R (q * w + x) * cell R (q * w + x) + (real y - real q) * (real y - real q)"
    using A unfolding is_min_def by blast
  obtain c' where c': "c' < w" "cell R (q * w + x) = cell d0 (q * w + c') + \<bar>real x - real c'\<bar>"
    using RM [OF q(1) yx(2)] unfolding is_min_def by blast
  define j where "j = q * w + c'"
  have j: "j < w * h" "j mod w = c'" "j div w = q"
    using idx [OF q(1) c'(1)] c'(1) by (simp_all add: j_def)
  have seed: "D = sq_dist w i j" if "P j"
  proof -
    have "cell R (q * w + x) = \<bar>real x - real c'\<bar>"
      using c'(2) c0 [OF j(1)] that by (simp add: j_def)
    then have "D = (real x - real c') * (real x - real c') + (real y - real q) * (real y - real q)"
      using q(2) by simp
    then show ?thesis
      by (simp add: sq_dist_def j x_def y_def)
  qed
  have far: "B * B \<le> D" if "\<not> P j"
  proof -
    have "cell R (q * w + x) = B + \<bar>real x - real c'\<bar>"
      using c'(2) c0 [OF j(1)] that by (simp add: j_def)
    then have "B \<le> cell R (q * w + x)" by simp
    then have "B * B \<le> cell R (q * w + x) * cell R (q * w + x)"
      using B by (intro sq_mono) simp_all
    moreover have "0 \<le> (real y - real q) * (real y - real q)" by simp
    ultimately show ?thesis using q(2) by linarith
  qed
  have BB: "B * B = real ((w + h) * (w + h))"
    by (simp add: B_def)
  have "D = nearest_sq w h P i"
  proof (cases "filter P [0..<w * h] = []")
    case True
    then have "\<not> P j" using j(1) by (auto simp: filter_empty_conv)
    then have "D = B * B" using far cap by simp
    then show ?thesis using True by (simp add: nearest_sq_def BB)
  next
    case False
    then obtain j0 where j0: "j0 < w * h" "P j0"
      by (auto simp: filter_empty_conv)
    have "P j"
    proof (rule ccontr)
      assume "\<not> P j"
      then have "B * B \<le> D" by (rule far)
      moreover have "D \<le> sq_dist w i j0" using j0 by (rule upper)
      moreover have "sq_dist w i j0 < B * B"
        unfolding BB using w i j0(1) by (rule sq_dist_less)
      ultimately show False by simp
    qed
    then have "D = sq_dist w i j" by (rule seed)
    then have mem: "D \<in> set (map (sq_dist w i) (filter P [0..<w * h]))"
      using j(1) \<open>P j\<close> by auto
    have "Min (set (map (sq_dist w i) (filter P [0..<w * h]))) = D"
    proof (rule Min_eqI)
      show "finite (set (map (sq_dist w i) (filter P [0..<w * h])))" by simp
      show "D \<le> a" if "a \<in> set (map (sq_dist w i) (filter P [0..<w * h]))" for a
        using that upper by auto
      show "D \<in> set (map (sq_dist w i) (filter P [0..<w * h]))" by (rule mem)
    qed
    then show ?thesis using False by (simp add: nearest_sq_def Let_def)
  qed
  moreover have "f32_at (distanceTransform2D d0 w h) (int i) = Fin D"
  proof -
    have "i < length (distanceTransform2D d0 w h)" using T(1) i by simp
    then show ?thesis
      using all_fin_at [OF T(2), of i] by (simp add: f32_at_def D_def)
  qed
  ultimately show ?thesis
    by (simp add: d0_def)
qed



text \<open>
  Claim C4. For a grid of positive width and height (and a positive resolution, the number
  of pixels per cell), every cell of the grid \<^verbatim>\<open>computeDistanceField\<close> returns is a finite
  number, strictly negative exactly when the mask cell is inside and strictly positive
  exactly when it is outside. Its value is \<open>- sqrt d * resolution\<close> on an inside cell, where \<open>d\<close>
  is the squared distance, in cells, to the nearest outside cell, and \<open>sqrt d * resolution\<close> on
  an outside cell, where \<open>d\<close> is the squared distance to the nearest inside cell; a mask with
  no cell of the other kind gives \<open>d = (w + h)\<^sup>2\<close>.
\<close>

theorem computeDistanceField_sign:
  assumes "0 < gridWidth s" and "0 < gridHeight s" and "0 < resolution s"
    and "i < gridWidth s * gridHeight s"
  shows "(\<exists>r. computeDistanceField s inside ! i = Fin r
            \<and> (r < 0) = truthy inside i \<and> (0 < r) = (\<not> truthy inside i))
       \<and> computeDistanceField s inside ! i
           = (if truthy inside i
              then Fin (- (sqrt (nearest_sq (gridWidth s) (gridHeight s) (\<lambda>j. \<not> truthy inside j) i)
                           * resolution s))
              else Fin (sqrt (nearest_sq (gridWidth s) (gridHeight s) (truthy inside) i)
                        * resolution s))"
proof -
  define w where "w = gridWidth s"
  define h where "h = gridHeight s"
  define dOut where "dOut = distanceTransform2D
      (map (\<lambda>j. if truthy inside j then Fin 0 else Fin (real (w + h))) [0..<w * h]) w h"
  define dIn where "dIn = distanceTransform2D
      (map (\<lambda>j. if truthy inside j then Fin (real (w + h)) else Fin 0) [0..<w * h]) w h"
  define nOut where "nOut = nearest_sq w h (truthy inside) i"
  define nIn where "nIn = nearest_sq w h (\<lambda>j. \<not> truthy inside j) i"
  have wh: "0 < w" "0 < h" "i < w * h"
    using assms by (simp_all add: w_def h_def)
  have o: "f32_at dOut (int i) = Fin nOut"
    unfolding dOut_def nOut_def using wh by (rule transform_nearest)
  have "(\<lambda>j. if truthy inside j then Fin (real (w + h)) else Fin 0)
        = (\<lambda>j. if \<not> truthy inside j then Fin 0 else Fin (real (w + h)))"
    by auto
  then have n: "f32_at dIn (int i) = Fin nIn"
    unfolding dIn_def nIn_def using transform_nearest [OF wh, of "\<lambda>j. \<not> truthy inside j"]
    by simp
  have ge: "truthy inside i \<Longrightarrow> 1 \<le> nIn" "\<not> truthy inside i \<Longrightarrow> 1 \<le> nOut"
    unfolding nIn_def nOut_def using wh(1) by (intro nearest_sq_ge1; simp)+
  have val: "computeDistanceField s inside ! i
      = (if truthy inside i then Fin (- (sqrt nIn * resolution s)) else Fin (sqrt nOut * resolution s))"
  proof (cases "truthy inside i")
    case True
    then have "0 \<le> nIn" using ge(1) by simp
    then show ?thesis
      using wh(3) True
      unfolding computeDistanceField_def Let_def w_def [symmetric] h_def [symmetric]
        dOut_def [symmetric] dIn_def [symmetric]
      by (simp add: n del: of_nat_add of_nat_mult)
  next
    case False
    then have "0 \<le> nOut" using ge(2) by simp
    then show ?thesis
      using wh(3) False
      unfolding computeDistanceField_def Let_def w_def [symmetric] h_def [symmetric]
        dOut_def [symmetric] dIn_def [symmetric]
      by (simp add: o del: of_nat_add of_nat_mult)
  qed
  have sign: "\<exists>r. computeDistanceField s inside ! i = Fin r
            \<and> (r < 0) = truthy inside i \<and> (0 < r) = (\<not> truthy inside i)"
  proof (cases "truthy inside i")
    case True
    then have "1 \<le> sqrt nIn" using ge(1) by simp
    then have "0 < sqrt nIn * resolution s" using assms(3) by simp
    then show ?thesis using True val by simp
  next
    case False
    then have "1 \<le> sqrt nOut" using ge(2) by simp
    then have "0 < sqrt nOut * resolution s" using assms(3) by simp
    then show ?thesis using False val by simp
  qed
  show ?thesis
    using sign val unfolding nIn_def nOut_def w_def h_def by simp
qed

lemma nearest_example:
  "nearest_sq 3 2 (\<lambda>j. \<not> truthy [1, 1, 0, 1, 1, 0] j) 0 = 4"
  "nearest_sq 3 2 (truthy [1, 1, 0, 1, 1, 0]) 2 = 1"
  by code_simp+

theorem computeDistanceField_sign_witness:
  "computeDistanceField ((SDF_new 4)\<lparr>gridWidth := 3, gridHeight := 2\<rparr>) [1, 1, 0, 1, 1, 0] ! 0 = Fin (- 8)
   \<and> computeDistanceField ((SDF_new 4)\<lparr>gridWidth := 3, gridHeight := 2\<rparr>) [1, 1, 0, 1, 1, 0] ! 2 = Fin 4"
proof -
  let ?s = "(SDF_new 4)\<lparr>gridWidth := 3, gridHeight := 2\<rparr>"
  have s: "0 < gridWidth ?s" "0 < gridHeight ?s" "0 < resolution ?s"
    "0 < gridWidth ?s * gridHeight ?s" "2 < gridWidth ?s * gridHeight ?s"
    by (simp_all add: SDF_new_def)
  have g: "gridWidth ?s = 3" "gridHeight ?s = 2" "resolution ?s = 4"
    by (simp_all add: SDF_new_def)
  have t: "truthy [1, 1, 0, 1, 1, 0] 0" "\<not> truthy [1, 1, 0, 1, 1, 0] 2"
    by (simp_all add: truthy_def)
  have r: "sqrt 4 * 4 = (8 :: real)" "sqrt 1 * 4 = (4 :: real)" by simp_all
  have a: "computeDistanceField ?s [1, 1, 0, 1, 1, 0] ! 0 = Fin (- (sqrt 4 * 4))"
    using computeDistanceField_sign [OF s(1) s(2) s(3) s(4), of "[1, 1, 0, 1, 1, 0]"]
    unfolding g nearest_example by (simp only: t if_True)
  have b: "computeDistanceField ?s [1, 1, 0, 1, 1, 0] ! 2 = Fin (sqrt 1 * 4)"
    using computeDistanceField_sign [OF s(1) s(2) s(3) s(5), of "[1, 1, 0, 1, 1, 0]"]
    unfolding g nearest_example by (simp only: t if_False)
  show ?thesis
    using a b unfolding r by (rule conjI)
qed



section \<open>The permutation table\<close>

lemma js_rem_nat:
  assumes "0 < m"
  shows "js_rem (real a) (real m) = real (a mod m)"
proof -
  have "0 \<le> real a / real m" by simp
  then have "js_trunc (real a / real m) = \<lfloor>real a / real m\<rfloor>"
    by (simp add: js_trunc_def)
  also have "\<dots> = int (a div m)"
    by (simp add: floor_divide_of_nat_eq)
  finally have t: "js_trunc (real a / real m) = int (a div m)" .
  have "real a = real (m * (a div m) + a mod m)"
    by simp
  then have "real a - real m * real (a div m) = real (a mod m)"
    by (simp only: of_nat_add of_nat_mult)
  then show ?thesis
    by (simp add: js_rem_def t)
qed

lemma valid_index_nat: "valid_index p (real j) = (j < length p)"
  by (simp add: valid_index_def)

lemma u8_get_nat: "j < length p \<Longrightarrow> u8_get p (real j) = Some (p ! j)"
  by (simp add: u8_get_def valid_index_nat)

lemma u8_set_nat: "j < length p \<Longrightarrow> u8_set p (real j) (Some b) = p[j := b]"
  by (simp add: u8_set_def valid_index_nat)

text \<open>With a seed that is a natural number, one round of the shuffle is a swap.\<close>

lemma shuffle_step_nat:
  assumes "Suc k < length p"
  shows "shuffle (Suc k) (real a) p
       = shuffle k (real ((a * 16807) mod 2147483647))
           (p[Suc k := p ! (((a * 16807) mod 2147483647) mod (Suc k + 1)),
              ((a * 16807) mod 2147483647) mod (Suc k + 1) := p ! Suc k])"
proof -
  define a' where "a' = (a * 16807) mod 2147483647"
  define j where "j = a' mod (Suc k + 1)"
  have n': "js_rem (real a * 16807) 2147483647 = real a'"
    using js_rem_nat [of 2147483647 "a * 16807"] by (simp add: a'_def)
  have jr: "js_rem (real a') (real (Suc k + 1)) = real j"
    unfolding j_def by (rule js_rem_nat) simp
  have "j < Suc k + 1"
    unfolding j_def by simp
  then have jl: "j < length p"
    using assms by linarith
  have "shuffle (Suc k) (real a) p = shuffle k (real a') (p[Suc k := p ! j, j := p ! Suc k])"
    apply (simp only: shuffle.simps Let_def n' jr)
    apply (simp only: u8_get_nat [OF jl] u8_get_nat [OF assms] u8_set_nat [OF assms])
    apply (subst u8_set_nat)
     apply (simp add: jl)
    apply (rule refl)
    done
  then show ?thesis
    by (simp only: a'_def j_def)
qed


lemma shuffle_nat_permutes:
  "k < length p \<Longrightarrow>
   set (shuffle k (real a) p) = set p \<and> distinct (shuffle k (real a) p) = distinct p"
proof (induction k arbitrary: a p)
  case 0
  then show ?case by simp
next
  case (Suc k)
  define a' where "a' = (a * 16807) mod 2147483647"
  define j where "j = a' mod (Suc k + 1)"
  have "j < Suc k + 1"
    unfolding j_def by simp
  then have jl: "j < length p"
    using Suc.prems by linarith
  let ?p' = "p[Suc k := p ! j, j := p ! Suc k]"
  have step: "shuffle (Suc k) (real a) p = shuffle k (real a') ?p'"
    using shuffle_step_nat [OF Suc.prems, of a] by (simp only: a'_def j_def)
  have "set (shuffle k (real a') ?p') = set ?p' \<and> distinct (shuffle k (real a') ?p') = distinct ?p'"
    using Suc.prems by (intro Suc.IH) simp
  moreover have "set ?p' = set p"
    using Suc.prems jl by (rule set_swap)
  moreover have "distinct ?p' = distinct p"
    using Suc.prems jl by (rule distinct_swap)
  ultimately show ?case
    unfolding step by simp
qed

text \<open>
  For a seed that is a natural number the base table is a permutation of \<open>0, ..., 255\<close>.
\<close>

lemma shuffle_nat_seed:
  "distinct (shuffle 255 (real a) [0..<256]) \<and> set (shuffle 255 (real a) [0..<256]) = {0..<256}
   \<and> length (shuffle 255 (real a) [0..<256]) = 256"
  using shuffle_nat_permutes [of 255 "[0..<256]" a] by (simp add: shuffle_length)

text \<open>The derived tables, for every seed.\<close>

lemma derived_tables:
  assumes "k < 512"
  shows "buildPermutationTable seed ! k = shuffle 255 seed [0..<256] ! (k mod 256)"
    and "perm (SimplexNoise_new seed) ! k = shuffle 255 seed [0..<256] ! (k mod 256)"
    and "permMod12 (SimplexNoise_new seed) ! k = perm (SimplexNoise_new seed) ! k mod 12"
    and "length (perm (SimplexNoise_new seed)) = 512"
    and "length (permMod12 (SimplexNoise_new seed)) = 512"
  using assms by (simp_all add: buildPermutationTable_def SimplexNoise_new_def Let_def del: upt.simps)

lemma u8_set_values: "set (u8_set p j v) \<subseteq> insert (case v of None \<Rightarrow> 0 | Some b \<Rightarrow> b) (set p)"
  using set_update_subset_insert [of p] by (auto simp: u8_set_def)

lemma u8_get_values: "u8_get p j = Some b \<Longrightarrow> b \<in> set p"
  by (auto simp: u8_get_def valid_index_def split: if_splits)

lemma shuffle_values: "set (shuffle k n p) \<subseteq> insert 0 (set p)"
proof (induction k arbitrary: n p)
  case 0
  then show ?case by auto
next
  case (Suc k)
  define n' where "n' = js_rem (n * 16807) 2147483647"
  define j where "j = js_rem n' (real (Suc k + 1))"
  define p1 where "p1 = u8_set p (real (Suc k)) (u8_get p j)"
  define p2 where "p2 = u8_set p1 j (u8_get p (real (Suc k)))"
  have s1: "set p1 \<subseteq> insert 0 (set p)"
    using u8_set_values [of p "real (Suc k)" "u8_get p j"] u8_get_values [of p j]
    unfolding p1_def by (cases "u8_get p j") auto
  have s2: "set p2 \<subseteq> insert 0 (set p)"
    using u8_set_values [of p1 j "u8_get p (real (Suc k))"] u8_get_values [of p "real (Suc k)"] s1
    unfolding p2_def by (cases "u8_get p (real (Suc k))") auto
  have "shuffle (Suc k) n p = shuffle k n' p2"
    by (simp only: shuffle.simps Let_def n'_def j_def p1_def p2_def)
  then show ?case
    using Suc.IH [of n' p2] s2 by auto
qed

lemma js_rem_less:
  assumes "0 < b"
  shows "js_rem a b < b"
proof (cases "0 \<le> a / b")
  case True
  have "a / b < of_int \<lfloor>a / b\<rfloor> + 1"
    by linarith
  then have "a < b * (of_int \<lfloor>a / b\<rfloor> + 1)"
    using assms by (simp add: field_simps)
  then show ?thesis
    using True by (simp add: js_rem_def js_trunc_def algebra_simps)
next
  case False
  have "a = b * (a / b)"
    using assms by simp
  also have "\<dots> \<le> b * of_int \<lceil>a / b\<rceil>"
    using assms by (intro mult_left_mono le_of_int_ceiling) simp
  finally have "a \<le> b * of_int \<lceil>a / b\<rceil>" .
  then show ?thesis
    using False assms by (simp add: js_rem_def js_trunc_def)
qed

text \<open>Round \<open>i\<close> writes at \<open>i\<close> and at an index below \<open>i + 1\<close>: the cells above stay.\<close>

lemma shuffle_above: "k < m \<Longrightarrow> m < length p \<Longrightarrow> shuffle k n p ! m = p ! m"
proof (induction k arbitrary: n p)
  case 0
  then show ?case by simp
next
  case (Suc k)
  define n' where "n' = js_rem (n * 16807) 2147483647"
  define j where "j = js_rem n' (real (Suc k + 1))"
  define p1 where "p1 = u8_set p (real (Suc k)) (u8_get p j)"
  define p2 where "p2 = u8_set p1 j (u8_get p (real (Suc k)))"
  have jlt: "j < real (Suc k + 1)"
    unfolding j_def by (rule js_rem_less) simp
  have l1: "length p1 = length p" and l2: "length p2 = length p"
    by (simp_all add: p1_def p2_def u8_set_def)
  have "p1 ! m = p ! m"
    using Suc.prems by (simp add: p1_def u8_set_def valid_index_nat)
  moreover have "p2 ! m = p1 ! m"
  proof (cases "valid_index p1 j")
    case False
    then show ?thesis by (simp add: p2_def u8_set_def)
  next
    case True
    then have "j = of_int \<lfloor>j\<rfloor>" "0 \<le> j"
      by (simp_all add: valid_index_def)
    then have "nat \<lfloor>j\<rfloor> < Suc k + 1"
      using jlt by linarith
    then have "nat \<lfloor>j\<rfloor> \<noteq> m"
      using Suc.prems(1) by simp
    then show ?thesis
      using True by (simp add: p2_def u8_set_def)
  qed
  moreover have "shuffle (Suc k) n p = shuffle k n' p2"
    by (simp only: shuffle.simps Let_def n'_def j_def p1_def p2_def)
  moreover have "shuffle k n' p2 ! m = p2 ! m"
    using Suc.prems by (intro Suc.IH) (simp_all add: l2)
  ultimately show ?case by simp
qed

text \<open>
  Claim C5 at the seed \<open>-1\<close>. The generator state stays negative, so the first index
  \<open>j = -16807 % 256 = -167\<close> is not an index of the array: \<^verbatim>\<open>p[255] = p[j]\<close> stores 0 and
  \<^verbatim>\<open>p[j] = tmp\<close> is lost. No later round writes cell 255 or brings the value 255 back: the
  base table, and the 512-entry table built from it, do not contain 255.
\<close>

theorem negative_seed_not_permutation:
  "255 \<notin> set (shuffle 255 (- 1) [0..<256])
   \<and> 255 \<notin> set (buildPermutationTable (- 1))
   \<and> set (shuffle 255 (- 1) [0..<256]) \<noteq> {0..<256}
   \<and> shuffle 255 (- 1) [0..<256] ! 255 = 0"
proof -
  have l: "length [0..<256 :: nat] = 256" by simp
  have n': "js_rem (- 1 * 16807) 2147483647 = - 16807"
    by (simp add: js_rem_def js_trunc_def)
  have j: "js_rem (- 16807) (real (Suc 254 + 1)) = - 167"
    by (simp add: js_rem_def js_trunc_def)
  have g: "u8_get [0..<256] (- 167) = None"
    by (simp add: u8_get_def valid_index_def)
  have st: "u8_set (u8_set [0..<256] (real (Suc 254)) None) (- 167) (u8_get [0..<256] (real (Suc 254)))
      = [0..<256][255 := 0]"
    by (simp add: u8_set_def valid_index_def del: upt.simps)
  have step: "shuffle (Suc 254) (- 1) [0..<256] = shuffle 254 (- 16807) ([0..<256][255 := 0])"
    by (simp only: shuffle.simps Let_def n' j g st)
  have e: "(256 :: nat) = Suc 255"
    by simp
  have "[0..<256 :: nat] = [0..<255] @ [255]"
    by (subst e, rule upt_Suc_append) simp
  then have upd: "[0..<256 :: nat][255 := 0] = [0..<255] @ [0]"
    by (simp add: list_update_append del: upt.simps)
  have a: "255 \<notin> set (shuffle 255 (- 1) [0..<256])"
  proof -
    have "set (shuffle 254 (- 16807) ([0..<255] @ [0])) \<subseteq> insert 0 (set ([0..<255] @ [0 :: nat]))"
      by (rule shuffle_values)
    then show ?thesis
      using step unfolding upd by auto
  qed
  have m: "shuffle 255 (- 1) [0..<256] ! (x mod 256) \<in> set (shuffle 255 (- 1) [0..<256])" for x
    by (rule nth_mem) (simp add: shuffle_length del: upt.simps)
  have b: "255 \<notin> set (buildPermutationTable (- 1))"
  proof
    assume "255 \<in> set (buildPermutationTable (- 1))"
    then obtain x where "x < 512" "buildPermutationTable (- 1) ! x = 255"
      by (auto simp: in_set_conv_nth buildPermutationTable_def Let_def simp del: upt.simps)
    then have "shuffle 255 (- 1) [0..<256] ! (x mod 256) = 255"
      by (simp add: derived_tables(1))
    then show False
      using a m [of x] by simp
  qed
  have "shuffle 254 (- 16807) ([0..<256][255 := 0]) ! 255 = [0..<256][255 := (0 :: nat)] ! 255"
    by (rule shuffle_above) (simp_all del: upt.simps)
  then have c: "shuffle 255 (- 1) [0..<256] ! 255 = 0"
    using step by (simp del: upt.simps)
  have d: "set (shuffle 255 (- 1) [0..<256]) \<noteq> {0..<256}"
    using a by auto
  show ?thesis
    using a b c d by blast
qed

section \<open>The range of the noise\<close>

text \<open>
  The three contributions of \<^verbatim>\<open>noise2D\<close> are bounded through the position \<open>(u, v)\<close> of the point
  in its cell of the skewed lattice: with \<open>\<sigma> = u + v\<close> and \<open>\<delta> = |u - v|\<close> the sum of the three
  is at most \<open>noise_sum \<sigma> \<delta>\<close>, whatever the gradients are. That sum is at most \<open>1 / 70\<close>: near the
  edge of the simplex by an estimate in closed form, which reduces to the identity
  \<open>(1 + e) (2 - 2e - e\<^sup>2)\<^sup>4 + (1 - e) (2 + 2e - e\<^sup>2)\<^sup>4 = 32 - 48 e\<^sup>4 + 18 e\<^sup>8\<close>, and elsewhere box by
  box on a grid of step \<open>1 / 50\<close>.
\<close>

lemma grad3_dot:
  assumes "gi < 12"
  shows "\<bar>grad3 ! gi ! 0 * x + grad3 ! gi ! 1 * y\<bar> \<le> max \<bar>x + y\<bar> \<bar>x - y\<bar>"
proof -
  consider "gi = 0" | "gi = 1" | "gi = 2" | "gi = 3" | "gi = 4" | "gi = 5" | "gi = 6"
    | "gi = 7" | "gi = 8" | "gi = 9" | "gi = 10" | "gi = 11"
    using assms by (auto simp: less_Suc_eq numeral_eq_Suc)
  moreover define M where "M = max \<bar>x + y\<bar> \<bar>x - y\<bar>"
  moreover have "\<bar>x + y\<bar> \<le> M" "\<bar>y - x\<bar> \<le> M" "\<bar>x - y\<bar> \<le> M" "\<bar>- x - y\<bar> \<le> M"
    "\<bar>x\<bar> \<le> M" "\<bar>y\<bar> \<le> M"
    unfolding M_def by linarith+
  ultimately show ?thesis
    unfolding M_def [symmetric] by cases (simp_all add: grad3_def)
qed

lemma corner_abs:
  assumes "gi < 12"
  shows "\<bar>corner gi x y\<bar> \<le> (max 0 (1 / 2 - x * x - y * y)) ^ 4 * max \<bar>x + y\<bar> \<bar>x - y\<bar>"
proof (cases "0 \<le> 1 / 2 - x * x - y * y")
  case True
  define t where "t = 1 / 2 - x * x - y * y"
  have t: "0 \<le> t" using True by (simp add: t_def)
  have "corner gi x y = t ^ 4 * (grad3 ! gi ! 0 * x + grad3 ! gi ! 1 * y)"
    using True by (simp add: corner_def Let_def t_def power4_eq_xxxx)
  then have "\<bar>corner gi x y\<bar> = t ^ 4 * \<bar>grad3 ! gi ! 0 * x + grad3 ! gi ! 1 * y\<bar>"
    using t by (simp add: abs_mult)
  also have "\<dots> \<le> t ^ 4 * max \<bar>x + y\<bar> \<bar>x - y\<bar>"
    using grad3_dot [OF assms, of x y] t by (intro mult_left_mono) simp_all
  also have "t ^ 4 = (max 0 t) ^ 4"
    using t by (simp add: max_def)
  finally show ?thesis by (simp add: t_def)
next
  case False
  then have "corner gi x y = 0" by (simp add: corner_def)
  moreover have "max 0 (1 / 2 - x * x - y * y) = 0" using False by (simp add: max_def)
  ultimately show ?thesis by simp
qed

lemma sqrt3_G2: "1 - 2 * G2 = 1 / sqrt 3"
proof -
  have "(1 - 2 * G2) * sqrt 3 = 1"
    using sqrt3_sq by (simp add: G2_def field_simps)
  then show ?thesis by (simp add: field_simps)
qed

lemma sqrt3_F2: "sqrt 3 * G2 = F2"
  using sqrt3_sq by (simp add: G2_def F2_def field_simps)

lemma skew_sum: "(a - (a + b) * G2) + (b - (a + b) * G2) = (a + b) / sqrt 3"
proof -
  have "(a - (a + b) * G2) + (b - (a + b) * G2) = (a + b) * (1 - 2 * G2)"
    by (simp add: algebra_simps)
  then show ?thesis by (simp only: sqrt3_G2) simp
qed

lemma skew_norm:
  "(a - (a + b) * G2) * (a - (a + b) * G2) + (b - (a + b) * G2) * (b - (a + b) * G2)
   = (a + b) * (a + b) / 6 + (a - b) * (a - b) / 2"
proof -
  have "(a - (a + b) * G2) * (a - (a + b) * G2) + (b - (a + b) * G2) * (b - (a + b) * G2)
        = a * a + b * b - 2 * ((a + b) * (a + b)) * G2 + 2 * ((a + b) * (a + b)) * (G2 * G2)"
    by (simp add: algebra_simps)
  also have "\<dots> = a * a + b * b - (a + b) * (a + b) / 3"
    by (simp only: G2_sq) (simp add: G2_def field_simps)
  also have "\<dots> = (a + b) * (a + b) / 6 + (a - b) * (a - b) / 2"
    by (simp add: field_simps)
  finally show ?thesis .
qed

lemma corner_skew:
  assumes "gi < 12"
  shows "\<bar>corner gi (a - (a + b) * G2) (b - (a + b) * G2)\<bar> \<le> corner_bound (a + b) (a - b)"
proof -
  define X where "X = a - (a + b) * G2"
  define Y where "Y = b - (a + b) * G2"
  have n: "1 / 2 - X * X - Y * Y = 1 / 2 - (a + b) * (a + b) / 6 - (a - b) * (a - b) / 2"
    using skew_norm [of a b] by (simp add: X_def Y_def)
  have s: "\<bar>X + Y\<bar> = \<bar>a + b\<bar> / sqrt 3"
    using skew_sum [of a b] by (simp add: X_def Y_def)
  have d: "X - Y = a - b" by (simp add: X_def Y_def)
  show ?thesis
    using corner_abs [OF assms, of X Y] unfolding n s d corner_bound_def X_def [symmetric] Y_def [symmetric] .
qed


lemma corner_bound_even: "corner_bound (- s) d = corner_bound s d" "corner_bound s (- d) = corner_bound s d"
  by (simp_all add: corner_bound_def)

lemma corner_bound_abs: "corner_bound s \<bar>d\<bar> = corner_bound s d"
  by (simp add: corner_bound_def)

lemma tables_in_range:
  assumes "k < 512"
  shows "perm (SimplexNoise_new seed) ! k < 256" and "permMod12 (SimplexNoise_new seed) ! k < 12"
proof -
  have "shuffle 255 seed [0..<256] ! (k mod 256) \<in> set (shuffle 255 seed [0..<256])"
    by (intro nth_mem) (simp add: shuffle_length)
  then have "shuffle 255 seed [0..<256] ! (k mod 256) \<in> insert 0 (set [0..<256])"
    using shuffle_values [of 255 seed "[0..<256]"] by blast
  then show "perm (SimplexNoise_new seed) ! k < 256"
    using assms by (auto simp: derived_tables(2) simp del: upt.simps)
  show "permMod12 (SimplexNoise_new seed) ! k < 12"
    using assms by (simp add: derived_tables(3))
qed

lemma noise2D_fin_corners:
  assumes p: "\<And>k. k < 512 \<Longrightarrow> perm sn ! k < 256"
    and m: "\<And>k. k < 512 \<Longrightarrow> permMod12 sn ! k < 12"
  shows "\<exists>\<sigma> \<delta>. 0 \<le> \<delta> \<and> \<delta> \<le> \<sigma> \<and> \<delta> \<le> 2 - \<sigma> \<and>
           \<bar>noise2D_fin sn x y\<bar>
           \<le> 70 * (corner_bound \<sigma> \<delta> + corner_bound (1 - \<sigma>) (1 - \<delta>) + corner_bound (2 - \<sigma>) \<delta>)"
proof -
  define s where "s = (x + y) * F2"
  define i where "i = \<lfloor>x + s\<rfloor>"
  define j where "j = \<lfloor>y + s\<rfloor>"
  define u where "u = x + s - of_int i"
  define v where "v = y + s - of_int j"
  define x0 where "x0 = x - (of_int i - of_int (i + j) * G2)"
  define y0 where "y0 = y - (of_int j - of_int (i + j) * G2)"
  define i1 :: nat where "i1 = (if x0 > y0 then 1 else 0)"
  define j1 :: nat where "j1 = (if x0 > y0 then 0 else 1)"
  define ii where "ii = nat (i mod 256)"
  define jj where "jj = nat (j mod 256)"
  define gi0 where "gi0 = permMod12 sn ! (ii + perm sn ! jj)"
  define gi1 where "gi1 = permMod12 sn ! (ii + i1 + perm sn ! (jj + j1))"
  define gi2 where "gi2 = permMod12 sn ! (ii + 1 + perm sn ! (jj + 1))"
  define n0 where "n0 = corner gi0 x0 y0"
  define n1 where "n1 = corner gi1 (x0 - real i1 + G2) (y0 - real j1 + G2)"
  define n2 where "n2 = corner gi2 (x0 - 1 + 2 * G2) (y0 - 1 + 2 * G2)"
  define \<sigma> where "\<sigma> = u + v"
  define \<delta> where "\<delta> = \<bar>u - v\<bar>"
  have eq: "noise2D_fin sn x y = 70 * (n0 + n1 + n2)"
    unfolding noise2D_fin_def Let_def n0_def n1_def n2_def gi0_def gi1_def gi2_def ii_def jj_def
      i1_def j1_def x0_def y0_def i_def j_def s_def ..
  have u: "0 \<le> u" "u < 1"
    unfolding u_def i_def by linarith+
  have v: "0 \<le> v" "v < 1"
    unfolding v_def j_def by linarith+
  have F: "1 + 2 * F2 = sqrt 3"
    by (simp add: F2_def field_simps)
  have "u + v = (x + y) * (1 + 2 * F2) - of_int (i + j)"
    by (simp add: u_def v_def s_def algebra_simps)
  then have "(u + v) * G2 = (x + y) * (sqrt 3 * G2) - of_int (i + j) * G2"
    by (simp only: F) (simp add: algebra_simps)
  then have uvG: "(u + v) * G2 = s - of_int (i + j) * G2"
    by (simp only: sqrt3_F2 s_def)
  have x0: "x0 = u - (u + v) * G2" and y0: "y0 = v - (u + v) * G2"
    unfolding uvG by (simp_all add: x0_def y0_def u_def v_def)
  have gt: "x0 > y0 \<longleftrightarrow> u > v"
    by (simp add: x0 y0)
  have ii: "ii < 256" and jj: "jj < 256"
    unfolding ii_def jj_def by simp_all
  have ij1: "i1 \<le> 1" "j1 \<le> 1"
    by (simp_all add: i1_def j1_def)
  have g0: "gi0 < 12"
    unfolding gi0_def using p [of jj] ii jj by (intro m) simp
  have g1: "gi1 < 12"
    unfolding gi1_def using p [of "jj + j1"] ii jj ij1 by (intro m) simp
  have g2: "gi2 < 12"
    unfolding gi2_def using p [of "jj + 1"] ii jj by (intro m) simp
  have b0: "\<bar>n0\<bar> \<le> corner_bound \<sigma> \<delta>"
    using corner_skew [OF g0, of u v]
    by (simp add: n0_def x0 y0 \<sigma>_def \<delta>_def corner_bound_abs)
  have a1: "x0 - real i1 + G2 = (u - real i1) - ((u - real i1) + (v - real j1)) * G2"
    and a2: "y0 - real j1 + G2 = (v - real j1) - ((u - real i1) + (v - real j1)) * G2"
    by (simp_all add: x0 y0 i1_def j1_def algebra_simps)
  have "\<bar>n1\<bar> \<le> corner_bound ((u - real i1) + (v - real j1)) ((u - real i1) - (v - real j1))"
    unfolding n1_def a1 a2 by (rule corner_skew [OF g1])
  also have "(u - real i1) + (v - real j1) = - (1 - \<sigma>)"
    by (simp add: i1_def j1_def \<sigma>_def)
  also have "corner_bound (- (1 - \<sigma>)) ((u - real i1) - (v - real j1))
             = corner_bound (1 - \<sigma>) (1 - \<delta>)"
  proof (cases "u > v")
    case True
    then have "(u - real i1) - (v - real j1) = - (1 - \<delta>)"
      by (simp add: i1_def j1_def gt \<delta>_def)
    then show ?thesis by (simp only: corner_bound_even)
  next
    case False
    then have "(u - real i1) - (v - real j1) = 1 - \<delta>"
      by (simp add: i1_def j1_def gt \<delta>_def)
    then show ?thesis by (simp only: corner_bound_even)
  qed
  finally have b1: "\<bar>n1\<bar> \<le> corner_bound (1 - \<sigma>) (1 - \<delta>)" .
  have c1: "x0 - 1 + 2 * G2 = (u - 1) - ((u - 1) + (v - 1)) * G2"
    and c2: "y0 - 1 + 2 * G2 = (v - 1) - ((u - 1) + (v - 1)) * G2"
    by (simp_all add: x0 y0 algebra_simps)
  have "\<bar>n2\<bar> \<le> corner_bound ((u - 1) + (v - 1)) ((u - 1) - (v - 1))"
    unfolding n2_def c1 c2 by (rule corner_skew [OF g2])
  also have "(u - 1) + (v - 1) = - (2 - \<sigma>)"
    by (simp add: \<sigma>_def)
  also have "(u - 1) - (v - 1) = u - v"
    by simp
  also have "corner_bound (- (2 - \<sigma>)) (u - v) = corner_bound (2 - \<sigma>) \<delta>"
    by (simp only: corner_bound_even \<delta>_def corner_bound_abs)
  finally have b2: "\<bar>n2\<bar> \<le> corner_bound (2 - \<sigma>) \<delta>" .
  have "\<bar>noise2D_fin sn x y\<bar> \<le> 70 * (\<bar>n0\<bar> + \<bar>n1\<bar> + \<bar>n2\<bar>)"
    unfolding eq by (simp add: abs_mult)
  also have "\<dots> \<le> 70 * (corner_bound \<sigma> \<delta> + corner_bound (1 - \<sigma>) (1 - \<delta>) + corner_bound (2 - \<sigma>) \<delta>)"
    using b0 b1 b2 by simp
  finally have "\<bar>noise2D_fin sn x y\<bar>
      \<le> 70 * (corner_bound \<sigma> \<delta> + corner_bound (1 - \<sigma>) (1 - \<delta>) + corner_bound (2 - \<sigma>) \<delta>)" .
  moreover have "0 \<le> \<delta>" "\<delta> \<le> \<sigma>" "\<delta> \<le> 2 - \<sigma>"
    using u v unfolding \<delta>_def \<sigma>_def by linarith+
  ultimately show ?thesis by blast
qed



lemma poly_identity:
  fixes e :: real
  shows "(1 + e) * (2 - 2 * e - e * e) ^ 4 + (1 - e) * (2 + 2 * e - e * e) ^ 4
         = 32 - 48 * e ^ 4 + 18 * e ^ 8"
  by algebra

lemma inv_sqrt3: "577 / 1000 \<le> 1 / sqrt 3" "1 / sqrt 3 \<le> 57736 / 100000" "1 / sqrt 3 \<le> 81 / 140"
proof -
  have lo: "1.73203 < sqrt 3"
    by (rule real_less_rsqrt) (simp add: power2_eq_square)
  show "577 / 1000 \<le> 1 / sqrt 3"
    using sqrt3_upper by (simp add: field_simps)
  show "1 / sqrt 3 \<le> 57736 / 100000"
    using lo by (simp add: field_simps)
  show "1 / sqrt 3 \<le> 81 / 140"
    using lo by (simp add: field_simps)
qed

lemma pow4_diff:
  fixes a b :: real
  assumes "0 \<le> b" "b \<le> a"
  shows "4 * (a - b) * b ^ 3 \<le> a ^ 4 - b ^ 4"
proof -
  have e: "a ^ 4 - b ^ 4 = (a - b) * (a ^ 3 + a ^ 2 * b + a * b ^ 2 + b ^ 3)"
    by algebra
  have a: "0 \<le> a" using assms by simp
  have 1: "b ^ 3 \<le> a ^ 3" using assms by (intro power_mono) simp_all
  have "b ^ 2 \<le> a ^ 2" using assms by (intro power_mono) simp_all
  then have "b ^ 2 * b \<le> a ^ 2 * b" using assms by (intro mult_right_mono) simp_all
  then have 2: "b ^ 3 \<le> a ^ 2 * b" by (simp add: power3_eq_cube power2_eq_square)
  have "b * b ^ 2 \<le> a * b ^ 2" using assms by (intro mult_right_mono) simp_all
  then have 3: "b ^ 3 \<le> a * b ^ 2" by (simp add: power3_eq_cube power2_eq_square)
  have "4 * b ^ 3 \<le> a ^ 3 + a ^ 2 * b + a * b ^ 2 + b ^ 3"
    using 1 2 3 by linarith
  then have "(a - b) * (4 * b ^ 3) \<le> (a - b) * (a ^ 3 + a ^ 2 * b + a * b ^ 2 + b ^ 3)"
    using assms by (intro mult_left_mono) simp_all
  then show ?thesis unfolding e by (simp add: algebra_simps)
qed


lemma zone_bound:
  assumes s: "1 / 2 \<le> \<sigma>" "\<sigma> \<le> 1" and d: "0 \<le> \<delta>" "\<delta> \<le> 3 / 25"
  shows "noise_sum \<sigma> \<delta> \<le> 1 / 70"
proof -
  define r where "r = 1 / sqrt 3"
  define x where "x = \<delta> * \<delta> / 2"
  define a0 where "a0 = 1 / 2 - \<sigma> * \<sigma> / 6"
  define a2 where "a2 = 1 / 2 - (2 - \<sigma>) * (2 - \<sigma>) / 6"
  define b where "b = a0 - x"
  define k where "k = \<sigma> * r"
  have r: "577 / 1000 \<le> r" "r \<le> 81 / 140" "0 \<le> r"
    using inv_sqrt3 by (simp_all add: r_def)
  have dd: "\<delta> * \<delta> \<le> (3 / 25) * (3 / 25)"
    using d by (intro mult_mono) simp_all
  have x: "0 \<le> x" "x \<le> 9 / 1250"
    using dd by (simp_all add: x_def)
  have ss: "\<sigma> * \<sigma> \<le> 1 * 1" "(1 / 2) * (1 / 2) \<le> \<sigma> * \<sigma>"
    using s by (intro mult_mono; simp)+
  have a0: "1 / 3 \<le> a0"
    using ss by (simp add: a0_def)
  have tt: "1 * 1 \<le> (2 - \<sigma>) * (2 - \<sigma>)" "(2 - \<sigma>) * (2 - \<sigma>) \<le> (3 / 2) * (3 / 2)"
    using s by (intro mult_mono; simp)+
  have a2: "1 / 8 \<le> a2"
    using tt by (simp add: a2_def)
  have b: "1223 / 3750 \<le> b" "b \<le> a0"
    using a0 x by (simp_all add: b_def)
  have k: "577 / 2000 \<le> k"
  proof -
    have "(1 / 2) * (577 / 1000) \<le> \<sigma> * r"
      using s r by (intro mult_mono) simp_all
    then show ?thesis by (simp add: k_def)
  qed
  have k0: "0 \<le> k" using k by simp
  have l0: "max (\<bar>\<sigma>\<bar> / sqrt 3) \<bar>\<delta>\<bar> = k"
  proof -
    have "\<bar>\<sigma>\<bar> / sqrt 3 = k" using s by (simp add: k_def r_def)
    moreover have "\<bar>\<delta>\<bar> \<le> k" using d k by simp
    ultimately show ?thesis by simp
  qed
  have t0: "1 / 2 - \<sigma> * \<sigma> / 6 - \<delta> * \<delta> / 2 = b"
    by (simp add: b_def a0_def x_def)
  have c0: "corner_bound \<sigma> \<delta> = b ^ 4 * k"
    unfolding corner_bound_def l0 t0 using b by (simp add: max_def)
  have l2: "max (\<bar>2 - \<sigma>\<bar> / sqrt 3) \<bar>\<delta>\<bar> = (2 - \<sigma>) * r"
  proof -
    have "\<bar>2 - \<sigma>\<bar> / sqrt 3 = (2 - \<sigma>) * r" using s by (simp add: r_def)
    moreover have "1 * (577 / 1000) \<le> (2 - \<sigma>) * r"
      using s r by (intro mult_mono) simp_all
    then have "\<bar>\<delta>\<bar> \<le> (2 - \<sigma>) * r" using d by simp
    ultimately show ?thesis by simp
  qed
  have t2: "1 / 2 - (2 - \<sigma>) * (2 - \<sigma>) / 6 - \<delta> * \<delta> / 2 = a2 - x"
    by (simp add: a2_def x_def)
  have "max 0 (a2 - x) \<le> a2"
    using a2 x by simp
  then have "(max 0 (a2 - x)) ^ 4 \<le> a2 ^ 4"
    by (intro power_mono) simp_all
  then have c2: "corner_bound (2 - \<sigma>) \<delta> \<le> a2 ^ 4 * ((2 - \<sigma>) * r)"
    unfolding corner_bound_def l2 t2 using s r by (intro mult_right_mono) simp_all
  have "0 \<le> (1 - \<sigma>) * (1 - \<sigma>)" by simp
  moreover have "1 / 2 - (1 - \<delta>) * (1 - \<delta>) / 2 = \<delta> - \<delta> * \<delta> / 2"
    by (simp add: field_simps)
  moreover have "0 \<le> \<delta> * \<delta>" by simp
  ultimately have "1 / 2 - (1 - \<sigma>) * (1 - \<sigma>) / 6 - (1 - \<delta>) * (1 - \<delta>) / 2 \<le> \<delta>"
    by linarith
  then have "max 0 (1 / 2 - (1 - \<sigma>) * (1 - \<sigma>) / 6 - (1 - \<delta>) * (1 - \<delta>) / 2) \<le> \<delta>"
    using d by simp
  then have p1: "(max 0 (1 / 2 - (1 - \<sigma>) * (1 - \<sigma>) / 6 - (1 - \<delta>) * (1 - \<delta>) / 2)) ^ 4 \<le> \<delta> ^ 4"
    by (intro power_mono) simp_all
  have l1: "max (\<bar>1 - \<sigma>\<bar> / sqrt 3) \<bar>1 - \<delta>\<bar> \<le> 1"
  proof -
    have "\<bar>1 - \<sigma>\<bar> * r \<le> 1 * 1"
      using s r by (intro mult_mono) simp_all
    then have "\<bar>1 - \<sigma>\<bar> / sqrt 3 \<le> 1" by (simp add: r_def)
    moreover have "\<bar>1 - \<delta>\<bar> \<le> 1" using d by simp
    ultimately show ?thesis by simp
  qed
  have "corner_bound (1 - \<sigma>) (1 - \<delta>) \<le> \<delta> ^ 4 * 1"
    unfolding corner_bound_def using p1 l1 d by (intro mult_mono) simp_all
  then have c1: "corner_bound (1 - \<sigma>) (1 - \<delta>) \<le> 4 * (x * x)"
    by (simp add: x_def power4_eq_xxxx)
  have "(1223 / 3750) ^ 3 \<le> b ^ 3"
    using b by (intro power_mono) simp_all
  then have "(1223 / 3750) ^ 3 * (577 / 2000) \<le> b ^ 3 * k"
    using k b by (intro mult_mono) simp_all
  moreover have "(9 :: real) / 1250 \<le> (1223 / 3750) ^ 3 * (577 / 2000)"
    by (simp add: power3_eq_cube)
  ultimately have "9 / 1250 \<le> b ^ 3 * k"
    by (rule order_trans [rotated])
  then have "x \<le> b ^ 3 * k"
    using x by linarith
  then have "x * x \<le> x * (b ^ 3 * k)"
    using x by (intro mult_left_mono) simp_all
  moreover have "4 * (a0 - b) * b ^ 3 \<le> a0 ^ 4 - b ^ 4"
    using b by (intro pow4_diff) simp_all
  then have "(4 * (a0 - b) * b ^ 3) * k \<le> (a0 ^ 4 - b ^ 4) * k"
    using k0 by (intro mult_right_mono)
  moreover have "a0 - b = x" by (simp add: b_def)
  ultimately have "4 * (x * x) \<le> (a0 ^ 4 - b ^ 4) * k"
    by (simp add: algebra_simps)
  then have c01: "b ^ 4 * k + 4 * (x * x) \<le> a0 ^ 4 * k"
    by (simp add: algebra_simps)
  define e where "e = \<sigma> - 1"
  have e4: "0 \<le> e ^ 4" "e ^ 4 \<le> 1 / 16"
  proof -
    show "0 \<le> e ^ 4" by simp
    have "\<bar>e\<bar> ^ 4 \<le> (1 / 2) ^ 4"
      using s by (intro power_mono) (simp_all add: e_def)
    moreover have "((1 :: real) / 2) ^ 4 = 1 / 16"
      by (simp add: power4_eq_xxxx)
    ultimately show "e ^ 4 \<le> 1 / 16" by simp
  qed
  have "e ^ 8 = e ^ 4 * e ^ 4" by (simp add: power_add [symmetric])
  also have "\<dots> \<le> (1 / 16) * e ^ 4"
    using e4 by (intro mult_right_mono) simp_all
  finally have e8: "18 * e ^ 8 \<le> 48 * e ^ 4" using e4 by linarith
  have a0e: "a0 = (2 - 2 * e - e * e) / 6" and a2e: "a2 = (2 + 2 * e - e * e) / 6"
    by (simp_all add: a0_def a2_def e_def field_simps)
  have "a0 ^ 4 * \<sigma> + a2 ^ 4 * (2 - \<sigma>)
        = ((1 + e) * (2 - 2 * e - e * e) ^ 4 + (1 - e) * (2 + 2 * e - e * e) ^ 4) / 1296"
    unfolding a0e a2e by (simp add: power_divide e_def)
  also have "\<dots> = (32 - 48 * e ^ 4 + 18 * e ^ 8) / 1296"
    by (simp only: poly_identity)
  also have "\<dots> \<le> 2 / 81"
    using e8 by simp
  finally have diag: "a0 ^ 4 * \<sigma> + a2 ^ 4 * (2 - \<sigma>) \<le> 2 / 81" .
  have "noise_sum \<sigma> \<delta> \<le> a0 ^ 4 * k + a2 ^ 4 * ((2 - \<sigma>) * r)"
    unfolding noise_sum_def using c0 c1 c2 c01 by linarith
  also have "\<dots> = (a0 ^ 4 * \<sigma> + a2 ^ 4 * (2 - \<sigma>)) * r"
    by (simp add: k_def algebra_simps)
  also have "\<dots> \<le> (2 / 81) * (81 / 140)"
    using diag r by (intro mult_mono) simp_all
  finally show ?thesis by simp
qed



lemma corner_bound_box:
  fixes p q :: int
  assumes p: "0 \<le> p" and q: "0 \<le> q"
    and s: "of_int p / 50 \<le> \<bar>s\<bar>" "\<bar>s\<bar> \<le> (of_int p + 1) / 50"
    and d: "of_int q / 50 \<le> \<bar>d\<bar>" "\<bar>d\<bar> \<le> (of_int q + 1) / 50"
  shows "corner_bound s d
         \<le> of_int (tb (7500 - p * p - 3 * (q * q)) (max ((p + 1) * 57736) ((q + 1) * 100000)))
            / (15000 ^ 4 * 5000000)"
proof -
  define N where "N = 7500 - p * p - 3 * (q * q)"
  define L where "L = max ((p + 1) * 57736) ((q + 1) * 100000)"
  have "(of_int p / 50) * (of_int p / 50) \<le> \<bar>s\<bar> * \<bar>s\<bar>"
    using p s by (intro mult_mono) simp_all
  then have ss: "of_int (p * p) / 2500 \<le> s * s"
    by simp
  have "(of_int q / 50) * (of_int q / 50) \<le> \<bar>d\<bar> * \<bar>d\<bar>"
    using q d by (intro mult_mono) simp_all
  then have dd: "of_int (q * q) / 2500 \<le> d * d"
    by simp
  have "1 / 2 - s * s / 6 - d * d / 2 \<le> 1 / 2 - (of_int (p * p) / 2500) / 6 - (of_int (q * q) / 2500) / 2"
    using ss dd by linarith
  also have "\<dots> = of_int N / 15000"
    by (simp add: N_def field_simps)
  finally have "max 0 (1 / 2 - s * s / 6 - d * d / 2) \<le> max 0 (of_int N / 15000)"
    by (rule max.mono [OF order_refl])
  also have "max 0 (of_int N / 15000) = (of_int (max 0 N) :: real) / 15000"
    by (simp add: max_def)
  finally have "(max 0 (1 / 2 - s * s / 6 - d * d / 2)) ^ 4 \<le> ((of_int (max 0 N) :: real) / 15000) ^ 4"
    by (intro power_mono) simp_all
  then have t: "(max 0 (1 / 2 - s * s / 6 - d * d / 2)) ^ 4 \<le> of_int ((max 0 N) ^ 4) / 15000 ^ 4"
    by (simp add: power_divide)
  have "\<bar>s\<bar> * (1 / sqrt 3) \<le> ((of_int p + 1) / 50) * (57736 / 100000)"
    using s inv_sqrt3(2) by (intro mult_mono) simp_all
  moreover have "\<bar>s\<bar> * (1 / sqrt 3) = \<bar>s\<bar> / sqrt 3"
    by simp
  moreover have "((of_int p + 1) / 50) * (57736 / 100000) = (of_int ((p + 1) * 57736) :: real) / 5000000"
    by simp
  ultimately have l1: "\<bar>s\<bar> / sqrt 3 \<le> of_int ((p + 1) * 57736) / 5000000"
    by (simp only:)
  have l2: "\<bar>d\<bar> \<le> of_int ((q + 1) * 100000) / 5000000"
    using d by simp
  have "max (\<bar>s\<bar> / sqrt 3) \<bar>d\<bar>
        \<le> max (of_int ((p + 1) * 57736) / 5000000) (of_int ((q + 1) * 100000) / 5000000)"
    using l1 l2 by (rule max.mono)
  also have "\<dots> = of_int L / 5000000"
    unfolding L_def by (simp add: max_def)
  finally have l: "max (\<bar>s\<bar> / sqrt 3) \<bar>d\<bar> \<le> of_int L / 5000000" .
  have "corner_bound s d \<le> (of_int ((max 0 N) ^ 4) / 15000 ^ 4) * (of_int L / 5000000)"
    unfolding corner_bound_def using t l by (intro mult_mono) simp_all
  also have "\<dots> = of_int (tb N L) / (15000 ^ 4 * 5000000)"
    by (simp add: tb_def)
  finally show ?thesis by (simp only: N_def L_def)
qed

lemma box_bound:
  assumes ij: "0 \<le> j" "j \<le> 49" "0 \<le> i" "i \<le> 49" and chk: "box_chk i j"
    and s: "of_int i / 50 \<le> \<sigma>" "\<sigma> \<le> (of_int i + 1) / 50"
    and d: "of_int j / 50 \<le> \<delta>" "\<delta> \<le> (of_int j + 1) / 50"
  shows "noise_sum \<sigma> \<delta> \<le> 1 / 70"
proof -
  define A where "A = tb (7500 - i * i - 3 * (j * j)) (max ((i + 1) * 57736) ((j + 1) * 100000))"
  define B where "B = tb (7500 - (49 - i) * (49 - i) - 3 * ((49 - j) * (49 - j)))
               (max ((50 - i) * 57736) ((50 - j) * 100000))"
  define C where "C = tb (7500 - (99 - i) * (99 - i) - 3 * (j * j))
               (max ((100 - i) * 57736) ((j + 1) * 100000))"
  define D :: real where "D = 15000 ^ 4 * 5000000"
  have s0: "0 \<le> \<sigma>" "\<sigma> \<le> 1" and d0: "0 \<le> \<delta>" "\<delta> \<le> 1"
    using ij s d by (simp_all add: field_simps)
  have a: "corner_bound \<sigma> \<delta> \<le> of_int A / D"
    unfolding A_def D_def using ij s d s0 d0 by (intro corner_bound_box) simp_all
  have "corner_bound (1 - \<sigma>) (1 - \<delta>)
        \<le> of_int (tb (7500 - (49 - i) * (49 - i) - 3 * ((49 - j) * (49 - j)))
                    (max ((49 - i + 1) * 57736) ((49 - j + 1) * 100000))) / D"
    unfolding D_def using ij s d s0 d0 by (intro corner_bound_box) (simp_all add: field_simps)
  then have b: "corner_bound (1 - \<sigma>) (1 - \<delta>) \<le> of_int B / D"
    by (simp add: B_def)
  have "corner_bound (2 - \<sigma>) \<delta>
        \<le> of_int (tb (7500 - (99 - i) * (99 - i) - 3 * (j * j))
                    (max ((99 - i + 1) * 57736) ((j + 1) * 100000))) / D"
    unfolding D_def using ij s d s0 d0 by (intro corner_bound_box) (simp_all add: field_simps)
  then have c: "corner_bound (2 - \<sigma>) \<delta> \<le> of_int C / D"
    by (simp add: C_def)
  have "70 * (A + B + C) \<le> 15000 ^ 4 * 5000000"
    using chk unfolding box_chk_def A_def B_def C_def .
  then have "(of_int (70 * (A + B + C)) :: real) \<le> of_int (15000 ^ 4 * 5000000)"
    by (rule of_int_le_iff [THEN iffD2])
  then have "70 * (of_int A + of_int B + of_int C) \<le> D"
    by (simp add: D_def)
  moreover have "0 < D" by (simp add: D_def)
  ultimately have "of_int A / D + of_int B / D + of_int C / D \<le> 1 / 70"
    by (simp add: field_simps)
  then show ?thesis
    unfolding noise_sum_def using a b c by linarith
qed

lemma row_ok_all: "row_ok i n \<Longrightarrow> j \<le> n \<Longrightarrow> cell_ok i (int j)"
proof (induction n)
  case 0
  then show ?case by simp
next
  case (Suc n)
  then show ?case by (cases "j = Suc n") simp_all
qed

lemma rows_ok_all: "rows_ok n \<Longrightarrow> i < n \<Longrightarrow> row_ok (int i) i"
proof (induction n)
  case 0
  then show ?case by simp
next
  case (Suc n)
  then show ?case by (cases "i = n") simp_all
qed



lemma grid_checked: "rows_ok 50"
  by code_simp

lemma noise_sum_lower:
  assumes d: "0 \<le> \<delta>" "\<delta> \<le> \<sigma>" and s: "\<sigma> \<le> 1"
  shows "noise_sum \<sigma> \<delta> \<le> 1 / 70"
proof -
  define i where "i = min 49 \<lfloor>50 * \<sigma>\<rfloor>"
  define j where "j = min 49 \<lfloor>50 * \<delta>\<rfloor>"
  have fd: "0 \<le> \<lfloor>50 * \<delta>\<rfloor>"
    using d by simp
  have fm: "\<lfloor>50 * \<delta>\<rfloor> \<le> \<lfloor>50 * \<sigma>\<rfloor>"
    using d by (intro floor_mono) simp
  have ij: "0 \<le> j" "j \<le> i" "i \<le> 49" "0 \<le> i" "j \<le> 49"
    using fd fm d by (simp_all add: i_def j_def)
  have s1: "of_int i / 50 \<le> \<sigma>"
  proof -
    have "of_int i \<le> (of_int \<lfloor>50 * \<sigma>\<rfloor> :: real)"
      unfolding i_def by simp
    also have "\<dots> \<le> 50 * \<sigma>"
      by (rule of_int_floor_le)
    finally show ?thesis by simp
  qed
  have s2: "\<sigma> \<le> (of_int i + 1) / 50"
  proof (cases "\<lfloor>50 * \<sigma>\<rfloor> \<le> 49")
    case True
    then have e: "i = \<lfloor>50 * \<sigma>\<rfloor>" by (simp add: i_def)
    have "50 * \<sigma> < of_int \<lfloor>50 * \<sigma>\<rfloor> + 1"
      by linarith
    then have "50 * \<sigma> \<le> of_int i + 1"
      unfolding e by linarith
    then show ?thesis by (simp add: field_simps)
  next
    case False
    then have "i = 49" by (simp add: i_def)
    then show ?thesis using s by simp
  qed
  have d1: "of_int j / 50 \<le> \<delta>"
  proof -
    have "of_int j \<le> (of_int \<lfloor>50 * \<delta>\<rfloor> :: real)"
      unfolding j_def by simp
    also have "\<dots> \<le> 50 * \<delta>"
      by (rule of_int_floor_le)
    finally show ?thesis by simp
  qed
  have d2: "\<delta> \<le> (of_int j + 1) / 50"
  proof (cases "\<lfloor>50 * \<delta>\<rfloor> \<le> 49")
    case True
    then have e: "j = \<lfloor>50 * \<delta>\<rfloor>" by (simp add: j_def)
    have "50 * \<delta> < of_int \<lfloor>50 * \<delta>\<rfloor> + 1"
      by linarith
    then have "50 * \<delta> \<le> of_int j + 1"
      unfolding e by linarith
    then show ?thesis by (simp add: field_simps)
  next
    case False
    then have "j = 49" by (simp add: j_def)
    then show ?thesis using s d by simp
  qed
  have "nat i < 50" "nat j \<le> nat i"
    using ij by simp_all
  then have "cell_ok (int (nat i)) (int (nat j))"
    using rows_ok_all [OF grid_checked, of "nat i"] row_ok_all [of "int (nat i)" "nat i" "nat j"]
    by blast
  then have "cell_ok i j"
    using ij by simp
  then consider "25 \<le> i" "j < 6" | "box_chk i j"
    unfolding cell_ok_def by blast
  then show ?thesis
  proof cases
    case 1
    have "(25 :: real) \<le> of_int i"
      using 1(1) by linarith
    then have "1 / 2 \<le> \<sigma>"
      using s1 by simp
    moreover have "(of_int j :: real) + 1 \<le> 6"
      using 1(2) by linarith
    then have "\<delta> \<le> 3 / 25"
      using d2 by simp
    ultimately show ?thesis
      using s d by (intro zone_bound) simp_all
  next
    case 2
    show ?thesis
      using ij 2 s1 s2 d1 d2 by (intro box_bound [of j i]) simp_all
  qed
qed

lemma noise_sum_bound:
  assumes "0 \<le> \<delta>" "\<delta> \<le> \<sigma>" "\<delta> \<le> 2 - \<sigma>"
  shows "noise_sum \<sigma> \<delta> \<le> 1 / 70"
proof (cases "\<sigma> \<le> 1")
  case True
  then show ?thesis using assms by (intro noise_sum_lower) simp_all
next
  case False
  have "1 - (2 - \<sigma>) = - (1 - \<sigma>)" by simp
  then have "noise_sum (2 - \<sigma>) \<delta> = noise_sum \<sigma> \<delta>"
    unfolding noise_sum_def by (simp only: corner_bound_even) simp
  moreover have "noise_sum (2 - \<sigma>) \<delta> \<le> 1 / 70"
    using False assms by (intro noise_sum_lower) simp_all
  ultimately show ?thesis by simp
qed

lemma noise2D_fin_range: "\<bar>noise2D_fin (SimplexNoise_new seed) x y\<bar> \<le> 1"
proof -
  obtain \<sigma> \<delta> where c: "0 \<le> \<delta>" "\<delta> \<le> \<sigma>" "\<delta> \<le> 2 - \<sigma>"
    and b: "\<bar>noise2D_fin (SimplexNoise_new seed) x y\<bar>
            \<le> 70 * (corner_bound \<sigma> \<delta> + corner_bound (1 - \<sigma>) (1 - \<delta>) + corner_bound (2 - \<sigma>) \<delta>)"
    using noise2D_fin_corners [of "SimplexNoise_new seed" x y] tables_in_range [of _ seed]
    by blast
  have "noise_sum \<sigma> \<delta> \<le> 1 / 70"
    using c by (rule noise_sum_bound)
  then have "70 * noise_sum \<sigma> \<delta> \<le> 1"
    by simp
  moreover have "\<bar>noise2D_fin (SimplexNoise_new seed) x y\<bar> \<le> 70 * noise_sum \<sigma> \<delta>"
    using b by (simp only: noise_sum_def)
  ultimately show ?thesis
    by (rule order_trans [rotated])
qed

text \<open>
  Claim C6. For every seed, integer or not, and every pair of arguments, \<^verbatim>\<open>noise2D\<close> returns a
  number between \<open>-1\<close> and 1: 70 times the sum of the three corner contributions never leaves
  that interval. Finite numbers are taken as real numbers, so the bound is the exact one,
  without the rounding of the floating-point sum; at an argument that is not finite the
  result is 0.
\<close>

theorem noise2D_range: "\<bar>noise2D (SimplexNoise_new seed) x y\<bar> \<le> 1"
  using noise2D_fin_range [of seed] by (cases x; cases y) simp_all

section \<open>The range of the angle\<close>

text \<open>
  The loop of \<^verbatim>\<open>getAngle\<close> from round \<open>i\<close> on, entered with amplitude \<open>(1/2)\<^sup>i\<close> and frequency
  \<open>scale * 2\<^sup>i\<close>, adds the remaining octaves to the two accumulators.
\<close>

lemma fbm_sums:
  "amp = (1 / 2) ^ i \<Longrightarrow> f = scale ff * 2 ^ i \<Longrightarrow> i \<le> nat \<lceil>octaves ff\<rceil> \<Longrightarrow>
   fbm ff x y i nv amp f m
     = (nv + (\<Sum>j = i..<nat \<lceil>octaves ff\<rceil>. (1 / 2) ^ j * octave_sample ff x y j),
        m + (\<Sum>j = i..<nat \<lceil>octaves ff\<rceil>. (1 / 2) ^ j))"
proof (induction ff x y i nv amp f m rule: fbm.induct)
  case (1 ff x y i nv amp f m)
  define n where "n = nat \<lceil>octaves ff\<rceil>"
  have lt: "real i < octaves ff \<longleftrightarrow> i < n"
    unfolding n_def by (simp add: zless_nat_eq_int_zless less_ceiling_iff)
  show ?case
  proof (cases "real i < octaves ff")
    case False
    then have "i = n"
      using "1.prems"(3) lt by (simp add: n_def)
    moreover have "fbm ff x y i nv amp f m = (nv, m)"
      using False by (subst fbm.simps) simp
    ultimately show ?thesis
      by (simp add: n_def)
  next
    case True
    then have i: "i < n" using lt by simp
    have s: "noise3D ff (js_mul x (Fin f)) (js_mul y (Fin f)) (zOffset ff) = octave_sample ff x y i"
      by (simp add: octave_sample_def "1.prems"(2))
    have unf: "fbm ff x y i nv amp f m
               = fbm ff x y (i + 1) (nv + amp * octave_sample ff x y i) (amp * 0.5) (f * 2) (m + amp)"
      using True by (subst fbm.simps) (simp add: s)
    have ih: "fbm ff x y (i + 1) (nv + amp * octave_sample ff x y i) (amp * 0.5) (f * 2) (m + amp)
              = (nv + amp * octave_sample ff x y i
                   + (\<Sum>j = i + 1..<n. (1 / 2) ^ j * octave_sample ff x y j),
                 m + amp + (\<Sum>j = i + 1..<n. (1 / 2) ^ j))"
      unfolding n_def s [symmetric]
      using True i by (intro "1.IH") (simp_all add: "1.prems" n_def)
    have "(\<Sum>j = i..<n. (1 / 2) ^ j * octave_sample ff x y j)
          = amp * octave_sample ff x y i + (\<Sum>j = i + 1..<n. (1 / 2) ^ j * octave_sample ff x y j)"
      using i by (simp add: sum.atLeast_Suc_lessThan "1.prems"(1))
    moreover have "(\<Sum>j = i..<n. ((1 :: real) / 2) ^ j) = amp + (\<Sum>j = i + 1..<n. (1 / 2) ^ j)"
      using i by (simp add: sum.atLeast_Suc_lessThan "1.prems"(1))
    ultimately show ?thesis
      unfolding unf ih n_def [symmetric] by simp
  qed
qed

text \<open>With the tables of a seed, every sample of an octave lies between \<open>-1\<close> and 1.\<close>

lemma noise3D_bounded:
  assumes "noise ff = SimplexNoise_new seed"
  shows "\<bar>noise3D ff x y z\<bar> \<le> 1"
proof -
  have b: "\<bar>noise2D (SimplexNoise_new seed) a c\<bar> \<le> 1" for a c
    using noise2D_fin_range [of seed] by (cases a; cases c) simp_all
  have "\<bar>noise2D (noise ff) x y + noise2D (noise ff) (js_add x (Fin 1000)) (Fin z)
          + noise2D (noise ff) (js_add y (Fin 2000)) (Fin z)\<bar> \<le> 1 + 1 + 1"
    unfolding assms by (intro order_trans [OF abs_triangle_ineq] add_mono b)
  then show ?thesis
    by (simp add: noise3D_def Let_def)
qed

lemma weight_positive: "0 < n \<Longrightarrow> 0 < (\<Sum>i<n. ((1 :: real) / 2) ^ i)"
  by (intro sum_pos) auto

lemma fbm_normalized_bounded:
  assumes "noise ff = SimplexNoise_new seed" and "0 < octaves ff"
  shows "\<bar>fbm_normalized ff x y\<bar> \<le> 1"
proof -
  define n where "n = nat \<lceil>octaves ff\<rceil>"
  define W where "W = (\<Sum>i<n. ((1 :: real) / 2) ^ i)"
  have "0 < n" using assms(2) by (simp add: n_def)
  then have W: "0 < W" unfolding W_def by (rule weight_positive)
  have "\<bar>\<Sum>i<n. (1 / 2) ^ i * octave_sample ff x y i\<bar>
        \<le> (\<Sum>i<n. \<bar>(1 / 2) ^ i * octave_sample ff x y i\<bar>)"
    by (rule sum_abs)
  also have "\<dots> \<le> (\<Sum>i<n. (1 / 2) ^ i * 1)"
  proof (rule sum_mono)
    fix i
    have "\<bar>octave_sample ff x y i\<bar> \<le> 1"
      unfolding octave_sample_def using assms(1) by (rule noise3D_bounded)
    then show "\<bar>(1 / 2) ^ i * octave_sample ff x y i\<bar> \<le> (1 / 2) ^ i * 1"
      by (simp add: abs_mult)
  qed
  finally have "\<bar>\<Sum>i<n. (1 / 2) ^ i * octave_sample ff x y i\<bar> \<le> W"
    by (simp add: W_def)
  then show ?thesis
    using W unfolding fbm_normalized_def n_def [symmetric] W_def [symmetric]
    by (simp add: field_simps)
qed

text \<open>
  Claim C7. For every seed, scale, offset and position, and every octave count from 1 on (the
  counts 1 to 8 that \<^verbatim>\<open>setOctaves\<close> allows among them): the value \<^verbatim>\<open>getAngle\<close> returns is
  \<open>(n + 1) * pi\<close> for \<open>n\<close> the amplitude-weighted sum of the octave samples divided by the total
  weight; \<open>n\<close> lies between \<open>-1\<close> and 1, the samples being bounded by 1 for the tables of every
  seed, and so the angle lies between 0 and \<open>2 * pi\<close>.
\<close>

theorem getAngle_range:
  assumes "noise ff = SimplexNoise_new seed" and "1 \<le> octaves ff"
  shows "getAngle ff x y = Fin ((fbm_normalized ff x y + 1) * pi)
       \<and> - 1 \<le> fbm_normalized ff x y \<and> fbm_normalized ff x y \<le> 1
       \<and> 0 \<le> (fbm_normalized ff x y + 1) * pi \<and> (fbm_normalized ff x y + 1) * pi \<le> 2 * pi"
proof -
  define n where "n = nat \<lceil>octaves ff\<rceil>"
  define W where "W = (\<Sum>i<n. ((1 :: real) / 2) ^ i)"
  define S where "S = (\<Sum>i<n. (1 / 2) ^ i * octave_sample ff x y i)"
  have o: "0 < octaves ff" using assms(2) by simp
  then have "0 < n" by (simp add: n_def)
  then have W: "0 < W" unfolding W_def by (rule weight_positive)
  have "fbm ff x y 0 0 1 (scale ff) 0 = (0 + S, 0 + W)"
    unfolding S_def W_def n_def lessThan_atLeast0 by (rule fbm_sums) simp_all
  then have "getAngle ff x y = Fin ((S / W + 1) * pi)"
    using W by (simp add: getAngle_def)
  then have a: "getAngle ff x y = Fin ((fbm_normalized ff x y + 1) * pi)"
    by (simp add: fbm_normalized_def S_def W_def n_def)
  have b: "- 1 \<le> fbm_normalized ff x y" "fbm_normalized ff x y \<le> 1"
    using fbm_normalized_bounded [OF assms(1) o, of x y] by (simp_all add: abs_le_iff)
  have "0 \<le> (fbm_normalized ff x y + 1) * pi"
    using b by simp
  moreover have "(fbm_normalized ff x y + 1) * pi \<le> 2 * pi"
    using b by simp
  ultimately show ?thesis
    using a b by simp
qed

theorem getAngle_range_witness:
  "noise field_fbm = SimplexNoise_new 42 \<and> octaves field_fbm = 4 \<and> scale field_fbm = 0.005
   \<and> getAngle field_fbm (Fin 120) (Fin 80) = Fin ((fbm_normalized field_fbm (Fin 120) (Fin 80) + 1) * pi)
   \<and> - 1 \<le> fbm_normalized field_fbm (Fin 120) (Fin 80)
   \<and> fbm_normalized field_fbm (Fin 120) (Fin 80) \<le> 1
   \<and> 0 \<le> (fbm_normalized field_fbm (Fin 120) (Fin 80) + 1) * pi
   \<and> (fbm_normalized field_fbm (Fin 120) (Fin 80) + 1) * pi \<le> 2 * pi"
proof -
  have f: "noise field_fbm = SimplexNoise_new 42" "octaves field_fbm = 4" "scale field_fbm = 0.005"
    by (simp_all add: field_fbm_def run_ops_def FlowField_new_def setOctaves_def evolve_def)
  then have "1 \<le> octaves field_fbm"
    by simp
  then show ?thesis
    using getAngle_range [OF f(1), of "Fin 120" "Fin 80"] f by simp
qed


end
